theory Spec2Isabelle
  imports Main
begin

section \<open>Strings of the editor host\<close>

text \<open>
  A JavaScript string is a sequence of UTF-16 code units. The model keeps the code
  units below 256 (Basic Latin and Latin-1), one \<^typ>\<open>char\<close> each; \<open>of_char\<close>
  reads the code unit. The document is a text whose line terminator is written
  \<open>CHR 0x0A\<close>; the host hands it out line by line (\<open>lineCount\<close>, \<open>lineAt(i).text\<close>).
\<close>

definition inRange :: "nat \<Rightarrow> nat \<Rightarrow> char \<Rightarrow> bool" where
  "inRange lo hi c = (lo \<le> of_char c \<and> (of_char c :: nat) \<le> hi)"

text \<open>The class \<open>\s\<close> of a JavaScript regular expression, which is also what
  \<open>String.prototype.trim\<close> strips: TAB, LF, VT, FF, CR, SPACE and NBSP below 256.\<close>

definition isSpace :: "char \<Rightarrow> bool" where
  "isSpace c = (c \<in> set [CHR 0x09, CHR 0x0A, CHR 0x0B, CHR 0x0C, CHR 0x0D, CHR 0x20, CHR 0xA0])"

text \<open>The class \<open>\w\<close>, whose edges \<open>\b\<close> looks for: \<open>[A-Za-z0-9_]\<close>.\<close>

definition isWordChar :: "char \<Rightarrow> bool" where
  "isWordChar c = (inRange 65 90 c \<or> inRange 97 122 c \<or> inRange 48 57 c \<or> c = CHR ''_'')"

text \<open>The class \<open>[A-Z0-9_]\<close> of the captured macro name.\<close>

definition isMacroChar :: "char \<Rightarrow> bool" where
  "isMacroChar c = (inRange 65 90 c \<or> inRange 48 57 c \<or> c = CHR ''_'')"

text \<open>What \<open>.\<close> refuses: the line terminators LF and CR.\<close>

definition isLineTerminator :: "char \<Rightarrow> bool" where
  "isLineTerminator c = (c = CHR 0x0A \<or> c = CHR 0x0D)"

definition trim :: "string \<Rightarrow> string" where
  "trim s = rev (dropWhile isSpace (rev (dropWhile isSpace s)))"

fun startsWith :: "string \<Rightarrow> string \<Rightarrow> bool" where
  "startsWith s [] = True"
| "startsWith [] (p # ps) = False"
| "startsWith (c # cs) (p # ps) = (c = p \<and> startsWith cs ps)"

text \<open>\<open>stripPrefix p s\<close> is what is left of \<open>s\<close> once the literal \<open>p\<close> has matched at
  its start.\<close>

fun stripPrefix :: "string \<Rightarrow> string \<Rightarrow> string option" where
  "stripPrefix [] s = Some s"
| "stripPrefix (p # ps) [] = None"
| "stripPrefix (p # ps) (c # cs) = (if p = c then stripPrefix ps cs else None)"

section \<open>The regular expressions of the source\<close>

text \<open>
  Each pattern is anchored at the start of the line and is matched without flags. A
  greedy \<open>\s*\<close> or \<open>\s+\<close> is always followed by a character that is not white space, so
  skipping all the white space is the only way to match and no backtracking is lost.
\<close>

definition startsWord :: "string \<Rightarrow> bool" where
  "startsWord s = (case s of [] \<Rightarrow> False | c # _ \<Rightarrow> isWordChar c)"

text \<open>\<open>\b\<close> between a previous character (word character or not) and the rest.\<close>

definition wordBoundary :: "bool \<Rightarrow> string \<Rightarrow> bool" where
  "wordBoundary prevIsWord s = (prevIsWord \<noteq> startsWord s)"

text \<open>\<open>^\s*#\s*kw\<close>: the rest of the line after the keyword.\<close>

definition directive :: "string \<Rightarrow> string \<Rightarrow> string option" where
  "directive kw s =
     (case dropWhile isSpace s of
        [] \<Rightarrow> None
      | c # r \<Rightarrow> if c = CHR ''#'' then stripPrefix kw (dropWhile isSpace r) else None)"

text \<open>\<open>\s+\<close>: at least one white space, then all of it.\<close>

definition spaces1 :: "string \<Rightarrow> string option" where
  "spaces1 s =
     (case s of
        [] \<Rightarrow> None
      | c # r \<Rightarrow> if isSpace c then Some (dropWhile isSpace r) else None)"

text \<open>\<open>/^\s*#\s*pragma\s+once\b/.test(t)\<close>\<close>

definition isPragmaOnce :: "string \<Rightarrow> bool" where
  "isPragmaOnce t =
     (case directive ''pragma'' t of
        None \<Rightarrow> False
      | Some r \<Rightarrow>
          (case spaces1 r of
             None \<Rightarrow> False
           | Some r' \<Rightarrow>
               (case stripPrefix ''once'' r' of
                  None \<Rightarrow> False
                | Some rest \<Rightarrow> wordBoundary True rest)))"

text \<open>\<open>t.match(/^\s*#\s*ifndef\s+([A-Z0-9_]+)/)\<close>: the captured group \<open>m[1]\<close>, the
  longest run of macro characters, which must not be empty.\<close>

definition matchIfndef :: "string \<Rightarrow> string option" where
  "matchIfndef t =
     (case directive ''ifndef'' t of
        None \<Rightarrow> None
      | Some r \<Rightarrow>
          (case spaces1 r of
             None \<Rightarrow> None
           | Some r' \<Rightarrow>
               (let m = takeWhile isMacroChar r' in if m = [] then None else Some m)))"

text \<open>The character before a literal \<open>m\<close> ends: the last of \<open>m\<close>, or the character
  before it when \<open>m\<close> is empty.\<close>

definition endsWord :: "bool \<Rightarrow> string \<Rightarrow> bool" where
  "endsWord prevIsWord m = (if m = [] then prevIsWord else isWordChar (last m))"

text \<open>\<open>new RegExp(`^\\s*#\\s*define\\s+${macro}\\b`).test(t)\<close>; the macro is a run of
  \<open>[A-Z0-9_]\<close>, so it stands in the pattern as a literal.\<close>

definition isDefineOf :: "string \<Rightarrow> string \<Rightarrow> bool" where
  "isDefineOf m t =
     (case directive ''define'' t of
        None \<Rightarrow> False
      | Some r \<Rightarrow>
          (case spaces1 r of
             None \<Rightarrow> False
           | Some r' \<Rightarrow>
               (case stripPrefix m r' of
                  None \<Rightarrow> False
                | Some rest \<Rightarrow> wordBoundary (endsWord False m) rest)))"

text \<open>\<open>/^\s*#\s*endif\b/.test(t)\<close>\<close>

definition isEndif :: "string \<Rightarrow> bool" where
  "isEndif t =
     (case directive ''endif'' t of
        None \<Rightarrow> False
      | Some r \<Rightarrow> wordBoundary True r)"

text \<open>\<open>\bM\b\<close> at the start of \<open>s\<close>, the character before being a word character
  or not.\<close>

definition wordHere :: "bool \<Rightarrow> string \<Rightarrow> string \<Rightarrow> bool" where
  "wordHere prevIsWord m s =
     (wordBoundary prevIsWord s \<and>
      (case stripPrefix m s of
         None \<Rightarrow> False
       | Some rest \<Rightarrow> wordBoundary (endsWord prevIsWord m) rest))"

text \<open>\<open>.*\bM\b\<close>: the word somewhere in \<open>s\<close>, after characters that \<open>.\<close> accepts.\<close>

fun wordLater :: "bool \<Rightarrow> string \<Rightarrow> string \<Rightarrow> bool" where
  "wordLater prevIsWord m [] = wordHere prevIsWord m []"
| "wordLater prevIsWord m (c # cs) =
     (wordHere prevIsWord m (c # cs) \<or>
      (\<not> isLineTerminator c \<and> wordLater (isWordChar c) m cs))"

text \<open>\<open>new RegExp(`^\\s*#\\s*endif\\b.*\\b${macro}\\b`).test(t)\<close>\<close>

definition isEndifOf :: "string \<Rightarrow> string \<Rightarrow> bool" where
  "isEndifOf m t =
     (case directive ''endif'' t of
        None \<Rightarrow> False
      | Some r \<Rightarrow> wordBoundary True r \<and> wordLater True m r)"

section \<open>Documents\<close>

text \<open>
  \<open>vscode.TextDocument\<close>, as far as the source reads it: the file name, the folder
  of the workspace that holds the file (\<open>getWorkspaceFolder(doc.uri)?.uri.fsPath\<close>) and
  the text.
\<close>

record document =
  fileName :: string
  workspaceFolder :: "string option"
  content :: string

text \<open>The lines of a text: what stands between the line terminators. A text has at
  least one line.\<close>

fun splitLines :: "string \<Rightarrow> string list" where
  "splitLines [] = [[]]"
| "splitLines (c # cs) =
     (if c = CHR 0x0A then [] # splitLines cs
      else (case splitLines cs of [] \<Rightarrow> [[c]] | l # ls \<Rightarrow> (c # l) # ls))"

definition docLines :: "document \<Rightarrow> string list" where
  "docLines doc = splitLines (content doc)"

definition lineCount :: "document \<Rightarrow> nat" where
  "lineCount doc = length (docLines doc)"

definition lineAt :: "document \<Rightarrow> nat \<Rightarrow> string" where
  "lineAt doc i = docLines doc ! i"

text \<open>The lines of a text, each followed by its terminator.\<close>

definition terminated :: "string list \<Rightarrow> string" where
  "terminated ls = concat (map (\<lambda>l. l @ [CHR 0x0A]) ls)"

section \<open>Pragma detector\<close>

text \<open>The test that ends the scan of \<open>hasPragmaOnce\<close>:
  \<open>t.trim() && !t.trim().startsWith('//') && !t.trim().startsWith('/*')\<close>.\<close>

definition substantive :: "string \<Rightarrow> bool" where
  "substantive t =
     (trim t \<noteq> [] \<and> \<not> startsWith (trim t) ''//'' \<and> \<not> startsWith (trim t) ''/*'')"

text \<open>The loop \<open>for (let i = 0; i < Math.min(50, doc.lineCount); i++)\<close>, from \<open>i\<close> on.\<close>

function hasPragmaOnceFrom :: "document \<Rightarrow> nat \<Rightarrow> bool" where
  "hasPragmaOnceFrom doc i =
     (if i < min 50 (lineCount doc) then
        (let t = lineAt doc i in
         if isPragmaOnce t then True
         else if substantive t then False
         else hasPragmaOnceFrom doc (i + 1))
      else False)"
  by pat_completeness auto
termination
  by (relation "measure (\<lambda>(doc, i). min 50 (lineCount doc) - i)") auto

declare hasPragmaOnceFrom.simps [simp del]

definition hasPragmaOnce :: "document \<Rightarrow> bool" where
  "hasPragmaOnce doc = hasPragmaOnceFrom doc 0"

section \<open>Guard extractor\<close>

record guardInfo =
  macro :: string
  ifndefLine :: nat
  defineLine :: nat
  endifLine :: nat

text \<open>The inner loop \<open>for (let j = i + 1; j < Math.min(i + 6, maxTop); j++)\<close>, from
  \<open>j\<close> on, \<open>hi\<close> its bound: the line of the \<open>#define\<close>, or \<open>None\<close> for \<open>-1\<close>.\<close>

function findDefine :: "document \<Rightarrow> string \<Rightarrow> nat \<Rightarrow> nat \<Rightarrow> nat option" where
  "findDefine doc m hi j =
     (if j < hi then
        (if isDefineOf m (lineAt doc j) then Some j else findDefine doc m hi (j + 1))
      else None)"
  by pat_completeness auto
termination
  by (relation "measure (\<lambda>(doc, m, hi, j). hi - j)") auto

declare findDefine.simps [simp del]

text \<open>The outer loop \<open>for (let i = 0; i < maxTop; i++)\<close>, from \<open>i\<close> on: it ends at the
  first \<open>#ifndef\<close>, with the macro, its line and what the inner loop found.\<close>

function findIfndef :: "document \<Rightarrow> nat \<Rightarrow> nat \<Rightarrow> (string \<times> nat \<times> nat option) option" where
  "findIfndef doc maxTop i =
     (if i < maxTop then
        (case matchIfndef (lineAt doc i) of
           Some m \<Rightarrow> Some (m, i, findDefine doc m (min (i + 6) maxTop) (i + 1))
         | None \<Rightarrow> findIfndef doc maxTop (i + 1))
      else None)"
  by pat_completeness auto
termination
  by (relation "measure (\<lambda>(doc, maxTop, i). maxTop - i)") auto

declare findIfndef.simps [simp del]

text \<open>The loops \<open>for (let k = doc.lineCount - 1; k >= 0; k--)\<close>: \<open>scanUp p doc n\<close> looks
  at the lines \<open>n - 1\<close> down to \<open>0\<close> and gives the first that passes \<open>p\<close>.\<close>

fun scanUp :: "(string \<Rightarrow> bool) \<Rightarrow> document \<Rightarrow> nat \<Rightarrow> nat option" where
  "scanUp p doc 0 = None"
| "scanUp p doc (Suc k) = (if p (lineAt doc k) then Some k else scanUp p doc k)"

definition findEndif :: "document \<Rightarrow> string \<Rightarrow> nat option" where
  "findEndif doc m =
     (case scanUp (isEndifOf m) doc (lineCount doc) of
        Some k \<Rightarrow> Some k
      | None \<Rightarrow> scanUp isEndif doc (lineCount doc))"

definition extractGuardMacro :: "document \<Rightarrow> guardInfo option" where
  "extractGuardMacro doc =
     (case findIfndef doc (min 60 (lineCount doc)) 0 of
        None \<Rightarrow> None
      | Some (m, i, None) \<Rightarrow> None
      | Some (m, i, Some j) \<Rightarrow>
          (case findEndif doc m of
             None \<Rightarrow> None
           | Some k \<Rightarrow> Some \<lparr>macro = m, ifndefLine = i, defineLine = j, endifLine = k\<rparr>))"

text \<open>The state that \<open>updateStatusBarForDoc\<close> shows:
  \<open>hasPragmaOnce(doc) ? 'pragma once' : (extractGuardMacro(doc) ? 'include guard' : none)\<close>.\<close>

datatype protection = PragmaOnce | Guard | NoProtection

definition protectionState :: "document \<Rightarrow> protection" where
  "protectionState doc =
     (if hasPragmaOnce doc then PragmaOnce
      else (case extractGuardMacro doc of Some g \<Rightarrow> Guard | None \<Rightarrow> NoProtection))"

section \<open>Document classifier\<close>

text \<open>
  \<open>path.basename\<close> and \<open>path.extname\<close> of Node.js, POSIX flavour: both look at the last
  part of the path, trailing slashes dropped. \<open>extname\<close> is empty when the part has no
  dot, when its only dot comes first, and for the part \<open>..\<close>.
\<close>

definition lastPart :: "string \<Rightarrow> string" where
  "lastPart p =
     rev (takeWhile (\<lambda>c. c \<noteq> CHR ''/'') (dropWhile (\<lambda>c. c = CHR ''/'') (rev p)))"

definition basename :: "string \<Rightarrow> string" where
  "basename p = lastPart p"

definition extname :: "string \<Rightarrow> string" where
  "extname p =
     (let b = lastPart p; e = takeWhile (\<lambda>c. c \<noteq> CHR ''.'') (rev b) in
      if CHR ''.'' \<notin> set b then []
      else if length e + 1 = length b then []
      else if b = ''..'' then []
      else CHR ''.'' # rev e)"

text \<open>\<open>String.prototype.toLowerCase\<close> on code units below 256: the letters \<open>A-Z\<close>, and
  the Latin-1 capitals \<open>0xC0-0xDE\<close> but the multiplication sign \<open>0xD7\<close>, move up by 32,
  which sets the bit of weight 32.\<close>

definition toLowerCaseChar :: "char \<Rightarrow> char" where
  "toLowerCaseChar c =
     (if inRange 65 90 c \<or> (inRange 192 222 c \<and> c \<noteq> CHR 0xD7)
      then (case c of Char b0 b1 b2 b3 b4 b5 b6 b7 \<Rightarrow> Char b0 b1 b2 b3 b4 True b6 b7)
      else c)"

definition toLowerCase :: "string \<Rightarrow> string" where
  "toLowerCase s = map toLowerCaseChar s"

definition isHeader :: "document \<Rightarrow> bool" where
  "isHeader doc =
     (toLowerCase (extname (fileName doc)) \<in> set [''.h'', ''.hpp'', ''.hh'', ''.hxx''])"

section \<open>Macro namer\<close>

text \<open>
  \<open>String.prototype.toUpperCase\<close> on code units below 256, as a list of code units,
  since three of them leave the range or grow: the micro sign \<open>0xB5\<close> becomes \<open>U+039C\<close>,
  the sharp s \<open>0xDF\<close> becomes \<open>SS\<close>, and \<open>0xFF\<close> becomes \<open>U+0178\<close>. The letters \<open>a-z\<close>,
  and the Latin-1 small letters \<open>0xE0-0xFE\<close> but the division sign \<open>0xF7\<close>, move down
  by 32.
\<close>

definition toUpperCaseUnits :: "char \<Rightarrow> nat list" where
  "toUpperCaseUnits c =
     (if inRange 97 122 c then [of_char c - 32]
      else if c = CHR 0xB5 then [924]
      else if c = CHR 0xDF then [83, 83]
      else if c = CHR 0xFF then [376]
      else if inRange 224 254 c \<and> c \<noteq> CHR 0xF7 then [of_char c - 32]
      else [of_char c])"

definition toUpperCase :: "string \<Rightarrow> nat list" where
  "toUpperCase s = concat (map toUpperCaseUnits s)"

text \<open>\<open>.replace(/[^A-Z0-9]/g, '_')\<close>, code unit by code unit.\<close>

definition replaceUnit :: "nat \<Rightarrow> char" where
  "replaceUnit u =
     (if (65 \<le> u \<and> u \<le> 90) \<or> (48 \<le> u \<and> u \<le> 57) then char_of u else CHR ''_'')"

definition replaceNonAlnum :: "nat list \<Rightarrow> string" where
  "replaceNonAlnum us = map replaceUnit us"

definition endsWith :: "string \<Rightarrow> string \<Rightarrow> bool" where
  "endsWith s suffix = startsWith (rev s) (rev suffix)"

text \<open>\<open>/_H(PP|H|XX)?$/.test(macro)\<close>\<close>

definition hasHeaderSuffix :: "string \<Rightarrow> bool" where
  "hasHeaderSuffix m =
     (endsWith m ''_H'' \<or> endsWith m ''_HPP'' \<or> endsWith m ''_HH'' \<or> endsWith m ''_HXX'')"

text \<open>The macro of a relative path: the body of \<open>computeMacro\<close> after \<open>rel\<close> is known.\<close>

definition macroOfRel :: "string \<Rightarrow> string" where
  "macroOfRel rel =
     (let m = replaceNonAlnum (toUpperCase rel) in
      if \<not> hasHeaderSuffix m then m @ ''_H'' else m)"

text \<open>\<open>rel\<close> of \<open>computeMacro\<close>. \<open>path.relative\<close> resolves both paths against the
  working directory of the process; it is a parameter here.\<close>

definition relOf :: "(string \<Rightarrow> string \<Rightarrow> string) \<Rightarrow> document \<Rightarrow> string" where
  "relOf pathRelative doc =
     (case workspaceFolder doc of
        Some ws \<Rightarrow> pathRelative ws (fileName doc)
      | None \<Rightarrow> basename (fileName doc))"

definition computeMacro :: "(string \<Rightarrow> string \<Rightarrow> string) \<Rightarrow> document \<Rightarrow> string" where
  "computeMacro pathRelative doc = macroOfRel (relOf pathRelative doc)"

text \<open>
  The macro as the specification words it, to be compared with \<open>macroOfRel\<close>: every
  character outside \<open>[A-Za-z0-9]\<close> replaced by \<open>_\<close>, the whole in upper case, and \<open>_H\<close>
  appended unless the result ends in \<open>_H\<close>, \<open>_HPP\<close>, \<open>_HH\<close> or \<open>_HXX\<close>.
\<close>

definition specMacroChar :: "char \<Rightarrow> char" where
  "specMacroChar c =
     (if inRange 65 90 c \<or> inRange 48 57 c then c
      else if inRange 97 122 c then char_of (of_char c - 32 :: nat)
      else CHR ''_'')"

definition specMacroOfRel :: "string \<Rightarrow> string" where
  "specMacroOfRel rel =
     (let m = map specMacroChar rel in if hasHeaderSuffix m then m else m @ ''_H'')"

text \<open>A macro name of the data model: not empty, of \<open>[A-Z0-9_]\<close> only, with one of the
  four endings.\<close>

definition validMacro :: "string \<Rightarrow> bool" where
  "validMacro m = (m \<noteq> [] \<and> list_all isMacroChar m \<and> hasHeaderSuffix m)"

section \<open>The edit builder of the host\<close>

text \<open>
  \<open>TextEditor.edit(callback)\<close> collects the calls \<open>builder.insert(position, text)\<close> and
  \<open>builder.delete(range)\<close> and applies them as one edit. A position is a line and a
  character, both from zero.
\<close>

type_synonym position = "nat \<times> nat"

datatype textEdit = Insert position string | Delete position position

text \<open>The host clamps a position to the document: a line past the last one becomes
  the end of the last line, a character past the end of its line the end of the line.\<close>

definition validatePosition :: "string list \<Rightarrow> position \<Rightarrow> position" where
  "validatePosition ls p =
     (case p of (l, c) \<Rightarrow>
        if length ls \<le> l then (length ls - 1, length (ls ! (length ls - 1)))
        else (l, min c (length (ls ! l))))"

text \<open>The offset at which a line starts: the lines before it, each with its
  terminator.\<close>

definition lineStart :: "string list \<Rightarrow> nat \<Rightarrow> nat" where
  "lineStart ls l = sum_list (map (\<lambda>x. length x + 1) (take l ls))"

text \<open>The offset of a position in the text, once the position is clamped: the start
  of its line and the characters before it in the line.\<close>

definition offsetAt :: "string list \<Rightarrow> position \<Rightarrow> nat" where
  "offsetAt ls p = (case validatePosition ls p of (l, c) \<Rightarrow> lineStart ls l + c)"

text \<open>An edit as the host keeps it: where the replaced range starts and ends, and the
  text put there. A range is stored with its ends in order.\<close>

type_synonym rangeEdit = "nat \<times> nat \<times> string"

definition rangeOf :: "string list \<Rightarrow> textEdit \<Rightarrow> rangeEdit" where
  "rangeOf ls ed =
     (case ed of
        Insert p x \<Rightarrow> (offsetAt ls p, offsetAt ls p, x)
      | Delete p q \<Rightarrow> (min (offsetAt ls p) (offsetAt ls q), max (offsetAt ls p) (offsetAt ls q), []))"

text \<open>The host sorts the ranges by their ends, then by their starts; edits with the
  same range keep the order of the calls.\<close>

definition rangeLe :: "rangeEdit \<Rightarrow> rangeEdit \<Rightarrow> bool" where
  "rangeLe a b =
     (case a of (s1, e1, x1) \<Rightarrow> case b of (s2, e2, x2) \<Rightarrow>
        e1 < e2 \<or> (e1 = e2 \<and> s1 \<le> s2))"

fun insertRange :: "rangeEdit \<Rightarrow> rangeEdit list \<Rightarrow> rangeEdit list" where
  "insertRange a [] = [a]"
| "insertRange a (b # bs) = (if rangeLe a b then a # b # bs else b # insertRange a bs)"

fun sortRanges :: "rangeEdit list \<Rightarrow> rangeEdit list" where
  "sortRanges [] = []"
| "sortRanges (a # as) = insertRange a (sortRanges as)"

text \<open>\<open>Overlapping ranges are not allowed!\<close>: a range of the sorted list that starts
  before the one in front of it ends makes the host reject the whole edit.\<close>

fun overlapping :: "rangeEdit list \<Rightarrow> bool" where
  "overlapping [] = False"
| "overlapping [a] = False"
| "overlapping (a # b # bs) = (fst b < fst (snd a) \<or> overlapping (b # bs))"

text \<open>The text after the sorted edits: \<open>pos\<close> is how far the old text is consumed.\<close>

fun applySorted :: "string \<Rightarrow> nat \<Rightarrow> rangeEdit list \<Rightarrow> string" where
  "applySorted t pos [] = drop pos t"
| "applySorted t pos (a # as) =
     (case a of (s, e, x) \<Rightarrow> take (s - pos) (drop pos t) @ x @ applySorted t e as)"

definition applyEdits :: "textEdit list \<Rightarrow> string \<Rightarrow> string option" where
  "applyEdits es t =
     (let rs = sortRanges (map (rangeOf (splitLines t)) es) in
      if overlapping rs then None else Some (applySorted t 0 rs))"

section \<open>Edit planner\<close>

text \<open>How a command ends: with a warning (\<open>NotAHeader\<close>), with a notice
  (\<open>AlreadyProtected\<close>), with its edit applied, or with its edit rejected by the host.\<close>

datatype outcome = NotAHeader | AlreadyProtected | Edited | EditRejected

definition edit :: "document \<Rightarrow> textEdit list \<Rightarrow> outcome \<times> document" where
  "edit doc es =
     (case applyEdits es (content doc) of
        None \<Rightarrow> (EditRejected, doc)
      | Some t \<Rightarrow> (Edited, doc\<lparr>content := t\<rparr>))"

definition guardHeader :: "string \<Rightarrow> string" where
  "guardHeader m = ''#ifndef '' @ m @ ''\<newline>#define '' @ m @ ''\<newline>\<newline>''"

definition guardFooter :: "string \<Rightarrow> string" where
  "guardFooter m = ''\<newline>#endif // '' @ m @ ''\<newline>''"

definition insertGuard :: "(string \<Rightarrow> string \<Rightarrow> string) \<Rightarrow> document \<Rightarrow> outcome \<times> document" where
  "insertGuard pathRelative doc =
     (if \<not> isHeader doc then (NotAHeader, doc)
      else if hasPragmaOnce doc \<or> extractGuardMacro doc \<noteq> None then (AlreadyProtected, doc)
      else
        (let m = computeMacro pathRelative doc in
         edit doc [Insert (0, 0) (guardHeader m), Insert (lineCount doc, 0) (guardFooter m)]))"

text \<open>The two deletions that remove a guard: the header from the start of the
  \<open>#ifndef\<close> line to the start of the line after the \<open>#define\<close>, and the text of the
  \<open>#endif\<close> line.\<close>

definition guardDeletions :: "document \<Rightarrow> guardInfo \<Rightarrow> textEdit list" where
  "guardDeletions doc g =
     [Delete (ifndefLine g, 0) (defineLine g + 1, 0),
      Delete (endifLine g, 0) (endifLine g, length (lineAt doc (endifLine g)))]"

definition usePragmaOnce :: "document \<Rightarrow> outcome \<times> document" where
  "usePragmaOnce doc =
     (if \<not> isHeader doc then (NotAHeader, doc)
      else if hasPragmaOnce doc then (AlreadyProtected, doc)
      else
        edit doc
          (Insert (0, 0) ''#pragma once\<newline>\<newline>'' #
           (case extractGuardMacro doc of None \<Rightarrow> [] | Some g \<Rightarrow> guardDeletions doc g)))"

text \<open>The loop of \<open>toggleGuardOrPragma\<close> that removes the pragma, from \<open>i\<close> on: the
  deletions it stages.\<close>

function pragmaDeletions :: "document \<Rightarrow> nat \<Rightarrow> textEdit list" where
  "pragmaDeletions doc i =
     (if i < min 50 (lineCount doc) then
        (let line = lineAt doc i in
         if isPragmaOnce line then
           Delete (i, 0) (i, length line) #
           (if i + 1 < lineCount doc \<and> trim (lineAt doc (i + 1)) = []
            then [Delete (i + 1, 0) (i + 1, length (lineAt doc (i + 1)))]
            else [])
         else if trim line \<noteq> [] then []
         else pragmaDeletions doc (i + 1))
      else [])"
  by pat_completeness auto
termination
  by (relation "measure (\<lambda>(doc, i). min 50 (lineCount doc) - i)") auto

declare pragmaDeletions.simps [simp del]

definition toggleGuardOrPragma :: "(string \<Rightarrow> string \<Rightarrow> string) \<Rightarrow> document \<Rightarrow> outcome \<times> document" where
  "toggleGuardOrPragma pathRelative doc =
     (if \<not> isHeader doc then (NotAHeader, doc)
      else if hasPragmaOnce doc then
        (let m = computeMacro pathRelative doc in
         edit doc
           (pragmaDeletions doc 0 @
            [Insert (0, 0) (guardHeader m), Insert (lineCount doc, 0) (guardFooter m)]))
      else
        (case extractGuardMacro doc of
           Some g \<Rightarrow> edit doc (Insert (0, 0) ''#pragma once\<newline>\<newline>'' # guardDeletions doc g)
         | None \<Rightarrow> insertGuard pathRelative doc))"

text \<open>
  The document after \<open>usePragmaOnce\<close> as the specification words it, to be compared
  with what the edit gives: the two lines \<open>#pragma once\<close> and a blank line, then the
  lines of the document without those from the \<open>#ifndef\<close> to the \<open>#define\<close> and without
  the \<open>#endif\<close> line.
\<close>

definition specPragmaLines :: "string list \<Rightarrow> guardInfo \<Rightarrow> string list" where
  "specPragmaLines ls g =
     ''#pragma once'' # [] #
     map snd (filter (\<lambda>(k, l). \<not> (ifndefLine g \<le> k \<and> k \<le> defineLine g) \<and> k \<noteq> endifLine g)
       (enumerate 0 ls))"

section \<open>Sample documents\<close>

definition header :: "string \<Rightarrow> document" where
  "header t = \<lparr>fileName = ''foo.h'', workspaceFolder = None, content = t\<rparr>"

definition pragmaAfterComments :: document where
  "pragmaAfterComments =
     header ''// note\<newline>\<newline>/* c */\<newline>  # pragma  once\<newline>int x;''"

definition pragmaAfterCode :: document where
  "pragmaAfterCode = header ''int x;\<newline>#pragma once''"

definition guardedAfterComment :: document where
  "guardedAfterComment =
     header ''// c\<newline>#ifndef FOO_H\<newline>\<newline>#define FOO_H\<newline>int x;\<newline>#endif // FOO_H''"

definition loneIfndef :: document where
  "loneIfndef =
     header ''#ifndef A_H\<newline>int x;\<newline>#ifndef B_H\<newline>#define B_H\<newline>#endif''"

definition twoEndifs :: document where
  "twoEndifs = header ''#ifndef FOO_H\<newline>#define FOO_H\<newline>#endif // FOO_H\<newline>#endif''"

definition bareEndif :: document where
  "bareEndif = header ''#ifndef FOO_H\<newline>#define FOO_H\<newline>#endif\<newline>''"

definition noEndif :: document where
  "noEndif = header ''#ifndef FOO_H\<newline>#define FOO_H\<newline>int x;''"

definition endifFirst :: document where
  "endifFirst = header ''#endif\<newline>#ifndef FOO_H\<newline>#define FOO_H''"

definition endifInside :: document where
  "endifInside = header ''#ifndef FOO_H\<newline>#endif\<newline>#define FOO_H''"

text \<open>What \<open>path.relative\<close> gives for a file that lies inside the folder.\<close>

definition insideFolder :: "string \<Rightarrow> string \<Rightarrow> string" where
  "insideFolder ws f = drop (length ws + 1) f"

definition sourceFile :: document where
  "sourceFile = \<lparr>fileName = ''src/main.cpp'', workspaceFolder = None, content = ''int x;''\<rparr>"

definition pragmaFirst :: document where
  "pragmaFirst = header ''#pragma once\<newline>\<newline>int x;''"

definition commentThenPragma :: document where
  "commentThenPragma = header ''// c\<newline>#pragma once\<newline>int x;''"

definition mathHeader :: document where
  "mathHeader = \<lparr>fileName = ''/work/src/utils/math.h'', workspaceFolder = Some ''/work'', content = []\<rparr>"


definition emptyHeader :: document where
  "emptyHeader = header []"

definition guardThenCode :: document where
  "guardThenCode =
     header ''#ifndef FOO_H\<newline>#define FOO_H\<newline>int x;\<newline>#endif // FOO_H\<newline>int y;''"

section \<open>Evaluation on concrete documents\<close>

lemmas regex_defs = isSpace_def isWordChar_def isMacroChar_def inRange_def
  isLineTerminator_def trim_def directive_def spaces1_def isPragmaOnce_def matchIfndef_def
  endsWord_def isDefineOf_def isEndif_def wordHere_def isEndifOf_def startsWord_def
  wordBoundary_def substantive_def

lemmas doc_defs = docLines_def lineCount_def lineAt_def header_def

lemmas scan_defs = hasPragmaOnce_def hasPragmaOnceFrom.simps findDefine.simps findIfndef.simps
  findEndif_def extractGuardMacro_def protectionState_def

lemmas path_defs = inRange_def lastPart_def basename_def extname_def toLowerCaseChar_def
  toLowerCase_def isHeader_def toUpperCaseUnits_def toUpperCase_def replaceUnit_def
  replaceNonAlnum_def endsWith_def hasHeaderSuffix_def macroOfRel_def relOf_def computeMacro_def
  specMacroChar_def specMacroOfRel_def validMacro_def insideFolder_def

lemmas edit_defs = validatePosition_def lineStart_def offsetAt_def rangeOf_def rangeLe_def applyEdits_def
  edit_def guardHeader_def guardFooter_def insertGuard_def guardDeletions_def usePragmaOnce_def
  pragmaDeletions.simps toggleGuardOrPragma_def

lemma char_of_numeral_eq:
  "char_of (numeral k :: nat) = c \<longleftrightarrow> take_bit 8 (numeral k :: nat) = of_char c"
  by (rule char_of_eq_iff)

section \<open>The scans, loop by loop\<close>

lemma hasPragmaOnceFrom_iff:
  "hasPragmaOnceFrom doc i0 \<longleftrightarrow>
     (\<exists>i. i0 \<le> i \<and> i < min 50 (lineCount doc) \<and> isPragmaOnce (lineAt doc i) \<and>
          (\<forall>j. i0 \<le> j \<and> j < i \<longrightarrow> \<not> substantive (lineAt doc j)))"
proof (induction doc i0 rule: hasPragmaOnceFrom.induct)
  case (1 doc i)
  let ?n = "min 50 (lineCount doc)"
  let ?R = "\<lambda>i0. \<exists>i. i0 \<le> i \<and> i < ?n \<and> isPragmaOnce (lineAt doc i) \<and>
          (\<forall>j. i0 \<le> j \<and> j < i \<longrightarrow> \<not> substantive (lineAt doc j))"
  show ?case
  proof (cases "i < ?n")
    case False
    then show ?thesis by (subst hasPragmaOnceFrom.simps) auto
  next
    case inb: True
    show ?thesis
    proof (cases "isPragmaOnce (lineAt doc i)")
      case True
      have "?R i" using inb True by (intro exI[of _ i]) auto
      moreover have "hasPragmaOnceFrom doc i"
        using inb True by (subst hasPragmaOnceFrom.simps) simp
      ultimately show ?thesis by blast
    next
      case np: False
      show ?thesis
      proof (cases "substantive (lineAt doc i)")
        case True
        have "\<not> hasPragmaOnceFrom doc i"
          using inb np True by (subst hasPragmaOnceFrom.simps) simp
        moreover have "\<not> ?R i"
        proof
          assume "?R i"
          then obtain k where k: "i \<le> k" "k < ?n" "isPragmaOnce (lineAt doc k)"
            "\<forall>j. i \<le> j \<and> j < k \<longrightarrow> \<not> substantive (lineAt doc j)" by blast
          from k(3) np have "k \<noteq> i" by auto
          with k(1) have "i < k" by simp
          with k(4) True show False by auto
        qed
        ultimately show ?thesis by blast
      next
        case ns: False
        have step: "hasPragmaOnceFrom doc i = hasPragmaOnceFrom doc (i + 1)"
          using inb np ns by (subst hasPragmaOnceFrom.simps) simp
        have ih: "hasPragmaOnceFrom doc (i + 1) = ?R (i + 1)"
          using "1.IH"[OF inb refl np ns] .
        have "?R (i + 1) = ?R i"
        proof
          assume "?R (i + 1)"
          then obtain k where k: "i + 1 \<le> k" "k < ?n" "isPragmaOnce (lineAt doc k)"
            "\<forall>j. i + 1 \<le> j \<and> j < k \<longrightarrow> \<not> substantive (lineAt doc j)" by blast
          have "\<forall>j. i \<le> j \<and> j < k \<longrightarrow> \<not> substantive (lineAt doc j)"
          proof (intro allI impI)
            fix j assume "i \<le> j \<and> j < k"
            then show "\<not> substantive (lineAt doc j)"
              using k(4) ns by (cases "j = i") auto
          qed
          with k show "?R i" by (intro exI[of _ k]) auto
        next
          assume "?R i"
          then obtain k where k: "i \<le> k" "k < ?n" "isPragmaOnce (lineAt doc k)"
            "\<forall>j. i \<le> j \<and> j < k \<longrightarrow> \<not> substantive (lineAt doc j)" by blast
          from k(3) np have "k \<noteq> i" by auto
          with k show "?R (i + 1)" by (intro exI[of _ k]) auto
        qed
        with step ih show ?thesis by simp
      qed
    qed
  qed
qed

lemma findDefine_Some:
  "findDefine doc m hi j0 = Some j \<longleftrightarrow>
     (j0 \<le> j \<and> j < hi \<and> isDefineOf m (lineAt doc j) \<and>
      (\<forall>k. j0 \<le> k \<and> k < j \<longrightarrow> \<not> isDefineOf m (lineAt doc k)))"
proof (induction doc m hi j0 rule: findDefine.induct)
  case (1 doc m hi j0)
  show ?case
  proof (cases "j0 < hi")
    case False
    then show ?thesis by (subst findDefine.simps) auto
  next
    case inb: True
    show ?thesis
    proof (cases "isDefineOf m (lineAt doc j0)")
      case True
      then have "findDefine doc m hi j0 = Some j0"
        using inb by (subst findDefine.simps) simp
      moreover have "j0 < j \<Longrightarrow> \<exists>k. j0 \<le> k \<and> k < j \<and> isDefineOf m (lineAt doc k)"
        using True by blast
      ultimately show ?thesis using inb True by (cases "j = j0") (auto simp: not_less)
    next
      case nd: False
      have step: "findDefine doc m hi j0 = findDefine doc m hi (j0 + 1)"
        using inb nd by (subst findDefine.simps) simp
      have "(\<forall>k. j0 \<le> k \<and> k < j \<longrightarrow> \<not> isDefineOf m (lineAt doc k)) =
            (\<forall>k. j0 + 1 \<le> k \<and> k < j \<longrightarrow> \<not> isDefineOf m (lineAt doc k))"
        using nd by (metis Suc_eq_plus1 Suc_leI le_neq_implies_less add_leD1)
      moreover have "j0 \<le> j \<and> isDefineOf m (lineAt doc j) \<longleftrightarrow> j0 + 1 \<le> j \<and> isDefineOf m (lineAt doc j)"
        using nd by (cases "j = j0") auto
      ultimately show ?thesis
        using "1.IH"[OF inb nd] step by auto
    qed
  qed
qed

lemma findDefine_None:
  "findDefine doc m hi j0 = None \<longleftrightarrow>
     (\<forall>k. j0 \<le> k \<and> k < hi \<longrightarrow> \<not> isDefineOf m (lineAt doc k))"
proof (induction doc m hi j0 rule: findDefine.induct)
  case (1 doc m hi j0)
  show ?case
  proof (cases "j0 < hi")
    case False
    then show ?thesis by (subst findDefine.simps) auto
  next
    case inb: True
    show ?thesis
    proof (cases "isDefineOf m (lineAt doc j0)")
      case True
      then have "findDefine doc m hi j0 = Some j0"
        using inb by (subst findDefine.simps) simp
      then show ?thesis using inb True by auto
    next
      case nd: False
      have step: "findDefine doc m hi j0 = findDefine doc m hi (j0 + 1)"
        using inb nd by (subst findDefine.simps) simp
      have "(\<forall>k. j0 \<le> k \<and> k < hi \<longrightarrow> \<not> isDefineOf m (lineAt doc k)) =
            (\<forall>k. j0 + 1 \<le> k \<and> k < hi \<longrightarrow> \<not> isDefineOf m (lineAt doc k))"
        using nd by (metis Suc_eq_plus1 Suc_leI le_neq_implies_less add_leD1)
      then show ?thesis
        using "1.IH"[OF inb nd] step by auto
    qed
  qed
qed

lemma findIfndef_Some:
  "findIfndef doc mt i0 = Some (m, i, r) \<longleftrightarrow>
     (i0 \<le> i \<and> i < mt \<and> matchIfndef (lineAt doc i) = Some m \<and>
      (\<forall>k. i0 \<le> k \<and> k < i \<longrightarrow> matchIfndef (lineAt doc k) = None) \<and>
      r = findDefine doc m (min (i + 6) mt) (i + 1))"
proof (induction doc mt i0 rule: findIfndef.induct)
  case (1 doc mt i0)
  show ?case
  proof (cases "i0 < mt")
    case False
    then show ?thesis by (subst findIfndef.simps) auto
  next
    case inb: True
    show ?thesis
    proof (cases "matchIfndef (lineAt doc i0)")
      case (Some m0)
      then have "findIfndef doc mt i0 = Some (m0, i0, findDefine doc m0 (min (i0 + 6) mt) (i0 + 1))"
        using inb by (subst findIfndef.simps) simp
      moreover have "i0 < i \<Longrightarrow> \<exists>k. i0 \<le> k \<and> k < i \<and> matchIfndef (lineAt doc k) \<noteq> None"
        using Some by (intro exI[of _ i0]) simp
      ultimately show ?thesis using inb Some by (cases "i = i0") (auto simp: not_less)
    next
      case nd: None
      have step: "findIfndef doc mt i0 = findIfndef doc mt (i0 + 1)"
        using inb nd by (subst findIfndef.simps) simp
      have "(\<forall>k. i0 \<le> k \<and> k < i \<longrightarrow> matchIfndef (lineAt doc k) = None) =
            (\<forall>k. i0 + 1 \<le> k \<and> k < i \<longrightarrow> matchIfndef (lineAt doc k) = None)"
        using nd by (metis Suc_eq_plus1 Suc_leI le_neq_implies_less add_leD1)
      moreover have "i0 \<le> i \<and> matchIfndef (lineAt doc i) = Some m \<longleftrightarrow> i0 + 1 \<le> i \<and> matchIfndef (lineAt doc i) = Some m"
        using nd by (cases "i = i0") auto
      ultimately show ?thesis
        using "1.IH"[OF inb nd] step by auto
    qed
  qed
qed

lemma findIfndef_None:
  "findIfndef doc mt i0 = None \<longleftrightarrow>
     (\<forall>k. i0 \<le> k \<and> k < mt \<longrightarrow> matchIfndef (lineAt doc k) = None)"
proof (induction doc mt i0 rule: findIfndef.induct)
  case (1 doc mt i0)
  show ?case
  proof (cases "i0 < mt")
    case False
    then show ?thesis by (subst findIfndef.simps) auto
  next
    case inb: True
    show ?thesis
    proof (cases "matchIfndef (lineAt doc i0)")
      case (Some m0)
      then have "findIfndef doc mt i0 \<noteq> None"
        using inb by (subst findIfndef.simps) simp
      then show ?thesis using inb Some by auto
    next
      case nd: None
      have step: "findIfndef doc mt i0 = findIfndef doc mt (i0 + 1)"
        using inb nd by (subst findIfndef.simps) simp
      have "(\<forall>k. i0 \<le> k \<and> k < mt \<longrightarrow> matchIfndef (lineAt doc k) = None) =
            (\<forall>k. i0 + 1 \<le> k \<and> k < mt \<longrightarrow> matchIfndef (lineAt doc k) = None)"
        using nd by (metis Suc_eq_plus1 Suc_leI le_neq_implies_less add_leD1)
      then show ?thesis
        using "1.IH"[OF inb nd] step by auto
    qed
  qed
qed

lemma scanUp_Some:
  "scanUp p doc n = Some k \<longleftrightarrow>
     (k < n \<and> p (lineAt doc k) \<and> (\<forall>k'. k < k' \<and> k' < n \<longrightarrow> \<not> p (lineAt doc k')))"
proof (induction n)
  case 0
  then show ?case by simp
next
  case (Suc n)
  show ?case
  proof (cases "p (lineAt doc n)")
    case True
    then show ?thesis by (auto simp: less_Suc_eq)
  next
    case False
    then show ?thesis using Suc by (auto simp: less_Suc_eq)
  qed
qed

lemma scanUp_None:
  "scanUp p doc n = None \<longleftrightarrow> (\<forall>k. k < n \<longrightarrow> \<not> p (lineAt doc k))"
  by (induction n) (auto simp: less_Suc_eq)

section \<open>Pragma detector: what the scan finds\<close>

text \<open>
  Claim C3. \<open>hasPragmaOnce\<close> is true exactly when some line among the first
  \<open>min(50, lineCount)\<close> matches \<open>^\s*#\s*pragma\s+once\b\<close> and every line before it is
  blank after trimming or starts, after trimming, with \<open>//\<close> or \<open>/*\<close>. And the scan
  answers false once it meets a substantive line with no pragma up to and including it.
\<close>

theorem hasPragmaOnce_first_pragma:
  "(hasPragmaOnce doc \<longleftrightarrow>
      (\<exists>i. i < min 50 (lineCount doc) \<and> isPragmaOnce (lineAt doc i) \<and>
           (\<forall>j. j < i \<longrightarrow>
                trim (lineAt doc j) = [] \<or> startsWith (trim (lineAt doc j)) ''//'' \<or>
                startsWith (trim (lineAt doc j)) ''/*''))) \<and>
   ((\<exists>k. k < min 50 (lineCount doc) \<and> substantive (lineAt doc k) \<and>
         (\<forall>j. j \<le> k \<longrightarrow> \<not> isPragmaOnce (lineAt doc j))) \<longrightarrow>
    \<not> hasPragmaOnce doc)"
proof -
  have iff: "hasPragmaOnce doc \<longleftrightarrow>
      (\<exists>i. i < min 50 (lineCount doc) \<and> isPragmaOnce (lineAt doc i) \<and>
           (\<forall>j. j < i \<longrightarrow> \<not> substantive (lineAt doc j)))"
    unfolding hasPragmaOnce_def by (subst hasPragmaOnceFrom_iff) simp
  have first: "hasPragmaOnce doc \<longleftrightarrow>
      (\<exists>i. i < min 50 (lineCount doc) \<and> isPragmaOnce (lineAt doc i) \<and>
           (\<forall>j. j < i \<longrightarrow>
                trim (lineAt doc j) = [] \<or> startsWith (trim (lineAt doc j)) ''//'' \<or>
                startsWith (trim (lineAt doc j)) ''/*''))"
    unfolding iff substantive_def by simp
  have second: "\<not> hasPragmaOnce doc"
    if "\<exists>k. k < min 50 (lineCount doc) \<and> substantive (lineAt doc k) \<and>
         (\<forall>j. j \<le> k \<longrightarrow> \<not> isPragmaOnce (lineAt doc j))"
  proof
    assume "hasPragmaOnce doc"
    then obtain i where i: "isPragmaOnce (lineAt doc i)"
      "\<forall>j. j < i \<longrightarrow> \<not> substantive (lineAt doc j)" using iff by blast
    from that obtain k where k: "substantive (lineAt doc k)"
      "\<forall>j. j \<le> k \<longrightarrow> \<not> isPragmaOnce (lineAt doc j)" by blast
    from i(1) k(2) have "k < i" by (meson not_le_imp_less)
    with i(2) k(1) show False by blast
  qed
  from first second show ?thesis by blast
qed

theorem hasPragmaOnce_first_pragma_witness:
  "hasPragmaOnce pragmaAfterComments \<and>
   (\<exists>i. i < min 50 (lineCount pragmaAfterComments) \<and>
        isPragmaOnce (lineAt pragmaAfterComments i)) \<and>
   \<not> hasPragmaOnce pragmaAfterCode"
proof -
  have h: "hasPragmaOnce pragmaAfterComments"
    by (simp add: pragmaAfterComments_def regex_defs doc_defs scan_defs)
  have ex: "\<exists>i. i < min 50 (lineCount pragmaAfterComments) \<and>
        isPragmaOnce (lineAt pragmaAfterComments i)"
    using hasPragmaOnce_first_pragma [of pragmaAfterComments] h by blast
  have pre: "\<exists>k. k < min 50 (lineCount pragmaAfterCode) \<and> substantive (lineAt pragmaAfterCode k) \<and>
         (\<forall>j. j \<le> k \<longrightarrow> \<not> isPragmaOnce (lineAt pragmaAfterCode j))"
    by (rule exI[of _ 0]) (simp add: pragmaAfterCode_def regex_defs doc_defs)
  have n: "\<not> hasPragmaOnce pragmaAfterCode"
    using hasPragmaOnce_first_pragma [of pragmaAfterCode] pre by blast
  from h ex n show ?thesis by blast
qed

section \<open>Guard extractor: what the scans find\<close>

lemma extractGuardMacro_Some_iff:
  "extractGuardMacro doc = Some g \<longleftrightarrow>
     (findIfndef doc (min 60 (lineCount doc)) 0 = Some (macro g, ifndefLine g, Some (defineLine g)) \<and>
      findEndif doc (macro g) = Some (endifLine g))"
  by (cases g) (auto simp: extractGuardMacro_def split: option.splits prod.splits)

lemma findEndif_None:
  "findEndif doc m = None \<longleftrightarrow>
     scanUp (isEndifOf m) doc (lineCount doc) = None \<and> scanUp isEndif doc (lineCount doc) = None"
  by (auto simp: findEndif_def split: option.splits)

lemma extractGuardMacro_None_iff:
  "extractGuardMacro doc = None \<longleftrightarrow>
     (case findIfndef doc (min 60 (lineCount doc)) 0 of
        None \<Rightarrow> True
      | Some (m, i, None) \<Rightarrow> True
      | Some (m, i, Some j) \<Rightarrow> findEndif doc m = None)"
  by (auto simp: extractGuardMacro_def split: option.splits prod.splits)

text \<open>
  Claim C4. When \<open>extractGuardMacro\<close> returns a guard, its \<open>ifndefLine\<close> is the first line
  among the first \<open>min(60, lineCount)\<close> that matches \<open>^\s*#\s*ifndef\s+([A-Z0-9_]+)\<close>, its
  macro is the captured group, its \<open>defineLine\<close> holds a \<open>#define\<close> of that macro, and
  \<open>ifndefLine < defineLine \<le> ifndefLine + 5\<close>. Conversely, when the first \<open>#ifndef\<close> has
  no \<open>#define\<close> of its macro in the next five lines within the scan bound, the result
  is not-found, whatever follows.
\<close>

theorem extractGuardMacro_header_pair:
  "(extractGuardMacro doc = Some g \<longrightarrow>
      ifndefLine g < min 60 (lineCount doc) \<and>
      matchIfndef (lineAt doc (ifndefLine g)) = Some (macro g) \<and>
      (\<forall>k. k < ifndefLine g \<longrightarrow> matchIfndef (lineAt doc k) = None) \<and>
      isDefineOf (macro g) (lineAt doc (defineLine g)) \<and>
      ifndefLine g < defineLine g \<and> defineLine g \<le> ifndefLine g + 5 \<and>
      defineLine g < min 60 (lineCount doc)) \<and>
   (i < min 60 (lineCount doc) \<and> matchIfndef (lineAt doc i) = Some m \<and>
    (\<forall>k. k < i \<longrightarrow> matchIfndef (lineAt doc k) = None) \<and>
    (\<forall>j. i < j \<and> j < min (i + 6) (min 60 (lineCount doc)) \<longrightarrow>
         \<not> isDefineOf m (lineAt doc j)) \<longrightarrow>
    extractGuardMacro doc = None)"
proof (rule conjI; rule impI)
  assume "extractGuardMacro doc = Some g"
  then have f: "findIfndef doc (min 60 (lineCount doc)) 0 =
      Some (macro g, ifndefLine g, Some (defineLine g))"
    by (simp add: extractGuardMacro_Some_iff)
  then have a: "ifndefLine g < min 60 (lineCount doc)"
    "matchIfndef (lineAt doc (ifndefLine g)) = Some (macro g)"
    "\<forall>k. k < ifndefLine g \<longrightarrow> matchIfndef (lineAt doc k) = None"
    and d: "findDefine doc (macro g) (min (ifndefLine g + 6) (min 60 (lineCount doc)))
        (ifndefLine g + 1) = Some (defineLine g)"
    by (simp_all add: findIfndef_Some)
  from d have b: "ifndefLine g + 1 \<le> defineLine g"
    "defineLine g < min (ifndefLine g + 6) (min 60 (lineCount doc))"
    "isDefineOf (macro g) (lineAt doc (defineLine g))"
    by (simp_all add: findDefine_Some)
  from a b show "ifndefLine g < min 60 (lineCount doc) \<and>
      matchIfndef (lineAt doc (ifndefLine g)) = Some (macro g) \<and>
      (\<forall>k. k < ifndefLine g \<longrightarrow> matchIfndef (lineAt doc k) = None) \<and>
      isDefineOf (macro g) (lineAt doc (defineLine g)) \<and>
      ifndefLine g < defineLine g \<and> defineLine g \<le> ifndefLine g + 5 \<and>
      defineLine g < min 60 (lineCount doc)"
    by simp
next
  assume h: "i < min 60 (lineCount doc) \<and> matchIfndef (lineAt doc i) = Some m \<and>
    (\<forall>k. k < i \<longrightarrow> matchIfndef (lineAt doc k) = None) \<and>
    (\<forall>j. i < j \<and> j < min (i + 6) (min 60 (lineCount doc)) \<longrightarrow>
         \<not> isDefineOf m (lineAt doc j))"
  then have "findDefine doc m (min (i + 6) (min 60 (lineCount doc))) (i + 1) = None"
    by (simp add: findDefine_None)
  with h have "findIfndef doc (min 60 (lineCount doc)) 0 = Some (m, i, None)"
    by (simp add: findIfndef_Some)
  then show "extractGuardMacro doc = None"
    by (simp add: extractGuardMacro_None_iff)
qed

theorem extractGuardMacro_header_pair_witness:
  "extractGuardMacro guardedAfterComment
     = Some \<lparr>macro = ''FOO_H'', ifndefLine = 1, defineLine = 3, endifLine = 5\<rparr> \<and>
   isDefineOf ''FOO_H'' (lineAt guardedAfterComment 3) \<and>
   extractGuardMacro loneIfndef = None"
proof -
  let ?g = "\<lparr>macro = ''FOO_H'', ifndefLine = 1, defineLine = 3, endifLine = 5\<rparr>"
  have x: "extractGuardMacro guardedAfterComment = Some ?g"
    by (simp add: guardedAfterComment_def regex_defs doc_defs scan_defs)
  have d: "isDefineOf ''FOO_H'' (lineAt guardedAfterComment 3)"
    using extractGuardMacro_header_pair [of guardedAfterComment ?g] x by simp
  have n: "lineCount loneIfndef = 5" by (simp add: loneIfndef_def doc_defs)
  have l: "\<not> isDefineOf ''A_H'' (lineAt loneIfndef 1)" "\<not> isDefineOf ''A_H'' (lineAt loneIfndef 2)"
    "\<not> isDefineOf ''A_H'' (lineAt loneIfndef 3)" "\<not> isDefineOf ''A_H'' (lineAt loneIfndef 4)"
    by (simp_all add: loneIfndef_def regex_defs doc_defs)
  have nd: "\<not> isDefineOf ''A_H'' (lineAt loneIfndef j)" if "0 < j" "j < 5" for j
  proof -
    from that have "j = 1 \<or> j = 2 \<or> j = 3 \<or> j = 4" by arith
    with l show ?thesis by auto
  qed
  have m: "matchIfndef (lineAt loneIfndef 0) = Some ''A_H''"
    by (simp add: loneIfndef_def regex_defs doc_defs)
  have pre: "0 < min 60 (lineCount loneIfndef) \<and> matchIfndef (lineAt loneIfndef 0) = Some ''A_H'' \<and>
    (\<forall>k. k < (0::nat) \<longrightarrow> matchIfndef (lineAt loneIfndef k) = None) \<and>
    (\<forall>j. 0 < j \<and> j < min (0 + 6) (min 60 (lineCount loneIfndef)) \<longrightarrow>
         \<not> isDefineOf ''A_H'' (lineAt loneIfndef j))"
    using n m nd by simp
  have none: "extractGuardMacro loneIfndef = None"
    using extractGuardMacro_header_pair [of loneIfndef _ 0 "''A_H''"] pre by blast
  from x d none show ?thesis by blast
qed

lemma isEndifOf_isEndif: "isEndifOf m t \<Longrightarrow> isEndif t"
  by (auto simp: isEndifOf_def isEndif_def split: option.splits)

lemma pair_found:
  assumes "i < min 60 (lineCount doc)" "matchIfndef (lineAt doc i) = Some m"
    "\<forall>k. k < i \<longrightarrow> matchIfndef (lineAt doc k) = None"
    "i < j" "j < min (i + 6) (min 60 (lineCount doc))" "isDefineOf m (lineAt doc j)"
  shows "\<exists>d. findIfndef doc (min 60 (lineCount doc)) 0 = Some (m, i, Some d)"
proof -
  have "findDefine doc m (min (i + 6) (min 60 (lineCount doc))) (i + 1) \<noteq> None"
    using assms(4-6) by (auto simp: findDefine_None intro!: exI[of _ j])
  then obtain d where "findDefine doc m (min (i + 6) (min 60 (lineCount doc))) (i + 1) = Some d"
    by blast
  with assms(1-3) show ?thesis by (simp add: findIfndef_Some)
qed

text \<open>
  Claim C5. Once the \<open>#ifndef\<close>/\<open>#define\<close> pair of macro \<open>m\<close> is found, \<open>endifLine\<close> is the
  largest index of a line matching \<open>^\s*#\s*endif\b.*\bm\b\<close>; when no line matches that,
  the largest index of a line matching \<open>^\s*#\s*endif\b\<close>; and when no line matches
  that either, the result is not-found.
\<close>

theorem extractGuardMacro_endif_choice:
  assumes "i < min 60 (lineCount doc)" "matchIfndef (lineAt doc i) = Some m"
    "\<forall>k. k < i \<longrightarrow> matchIfndef (lineAt doc k) = None"
    "i < j" "j < min (i + 6) (min 60 (lineCount doc))" "isDefineOf m (lineAt doc j)"
  shows
   "(\<forall>e. e < lineCount doc \<and> isEndifOf m (lineAt doc e) \<and>
         (\<forall>k. e < k \<and> k < lineCount doc \<longrightarrow> \<not> isEndifOf m (lineAt doc k)) \<longrightarrow>
         (\<exists>g. extractGuardMacro doc = Some g \<and> macro g = m \<and> ifndefLine g = i \<and>
              endifLine g = e)) \<and>
    (\<forall>e. (\<forall>k. k < lineCount doc \<longrightarrow> \<not> isEndifOf m (lineAt doc k)) \<and>
         e < lineCount doc \<and> isEndif (lineAt doc e) \<and>
         (\<forall>k. e < k \<and> k < lineCount doc \<longrightarrow> \<not> isEndif (lineAt doc k)) \<longrightarrow>
         (\<exists>g. extractGuardMacro doc = Some g \<and> macro g = m \<and> ifndefLine g = i \<and>
              endifLine g = e)) \<and>
    ((\<forall>k. k < lineCount doc \<longrightarrow> \<not> isEndif (lineAt doc k)) \<longrightarrow>
       extractGuardMacro doc = None)"
proof -
  from pair_found [OF assms] obtain d where
    f: "findIfndef doc (min 60 (lineCount doc)) 0 = Some (m, i, Some d)" by blast
  have some: "\<exists>g. extractGuardMacro doc = Some g \<and> macro g = m \<and> ifndefLine g = i \<and>
      endifLine g = e" if "findEndif doc m = Some e" for e
    using f that by (simp add: extractGuardMacro_def)
  have a: "findEndif doc m = Some e"
    if "e < lineCount doc \<and> isEndifOf m (lineAt doc e) \<and>
         (\<forall>k. e < k \<and> k < lineCount doc \<longrightarrow> \<not> isEndifOf m (lineAt doc k))" for e
  proof -
    from that have "scanUp (isEndifOf m) doc (lineCount doc) = Some e"
      by (simp add: scanUp_Some)
    then show ?thesis by (simp add: findEndif_def)
  qed
  have b: "findEndif doc m = Some e"
    if "(\<forall>k. k < lineCount doc \<longrightarrow> \<not> isEndifOf m (lineAt doc k)) \<and>
         e < lineCount doc \<and> isEndif (lineAt doc e) \<and>
         (\<forall>k. e < k \<and> k < lineCount doc \<longrightarrow> \<not> isEndif (lineAt doc k))" for e
  proof -
    from that have "scanUp (isEndifOf m) doc (lineCount doc) = None"
      by (simp add: scanUp_None)
    moreover from that have "scanUp isEndif doc (lineCount doc) = Some e"
      by (simp add: scanUp_Some)
    ultimately show ?thesis by (simp add: findEndif_def)
  qed
  have c: "extractGuardMacro doc = None"
    if "\<forall>k. k < lineCount doc \<longrightarrow> \<not> isEndif (lineAt doc k)"
  proof -
    from that have "scanUp isEndif doc (lineCount doc) = None"
      by (simp add: scanUp_None)
    moreover from that have "scanUp (isEndifOf m) doc (lineCount doc) = None"
      using isEndifOf_isEndif by (auto simp: scanUp_None)
    ultimately have "findEndif doc m = None" by (simp add: findEndif_None)
    with f show ?thesis by (simp add: extractGuardMacro_def)
  qed
  from some a b c show ?thesis by blast
qed

lemma lt3_cases: "(k::nat) < 3 \<Longrightarrow> k = 0 \<or> k = 1 \<or> k = 2"
  by arith

lemma lt4_cases: "(k::nat) < 4 \<Longrightarrow> k = 0 \<or> k = 1 \<or> k = 2 \<or> k = 3"
  by arith

theorem extractGuardMacro_endif_choice_witness:
  "(\<exists>g. extractGuardMacro twoEndifs = Some g \<and> macro g = ''FOO_H'' \<and> ifndefLine g = 0 \<and>
        endifLine g = 2) \<and>
   isEndif (lineAt twoEndifs 3) \<and>
   (\<exists>g. extractGuardMacro bareEndif = Some g \<and> macro g = ''FOO_H'' \<and> ifndefLine g = 0 \<and>
        endifLine g = 2) \<and>
   extractGuardMacro noEndif = None"
proof -
  have na: "lineCount twoEndifs = 4" and nb: "lineCount bareEndif = 4"
    and nc: "lineCount noEndif = 3"
    by (simp_all add: twoEndifs_def bareEndif_def noEndif_def doc_defs)
  have la: "matchIfndef (lineAt twoEndifs 0) = Some ''FOO_H''"
    "isDefineOf ''FOO_H'' (lineAt twoEndifs 1)"
    "isEndifOf ''FOO_H'' (lineAt twoEndifs 2)" "\<not> isEndifOf ''FOO_H'' (lineAt twoEndifs 3)"
    "isEndif (lineAt twoEndifs 3)"
    by (simp_all add: twoEndifs_def regex_defs doc_defs)
  have lb: "matchIfndef (lineAt bareEndif 0) = Some ''FOO_H''"
    "isDefineOf ''FOO_H'' (lineAt bareEndif 1)"
    "\<not> isEndifOf ''FOO_H'' (lineAt bareEndif 0)" "\<not> isEndifOf ''FOO_H'' (lineAt bareEndif 1)"
    "\<not> isEndifOf ''FOO_H'' (lineAt bareEndif 2)" "\<not> isEndifOf ''FOO_H'' (lineAt bareEndif 3)"
    "isEndif (lineAt bareEndif 2)" "\<not> isEndif (lineAt bareEndif 3)"
    by (simp_all add: bareEndif_def regex_defs doc_defs)
  have lc: "matchIfndef (lineAt noEndif 0) = Some ''FOO_H''"
    "isDefineOf ''FOO_H'' (lineAt noEndif 1)"
    "\<not> isEndif (lineAt noEndif 0)" "\<not> isEndif (lineAt noEndif 1)" "\<not> isEndif (lineAt noEndif 2)"
    by (simp_all add: noEndif_def regex_defs doc_defs)
  have p0: "\<forall>k. k < (0::nat) \<longrightarrow> matchIfndef (lineAt d k) = None" for d by simp
  have p1: "(0::nat) < 1" by simp
  have ba: "(0::nat) < min 60 (lineCount twoEndifs)"
    "(1::nat) < min (0 + 6) (min 60 (lineCount twoEndifs))"
    using na by simp_all
  have bb: "(0::nat) < min 60 (lineCount bareEndif)"
    "(1::nat) < min (0 + 6) (min 60 (lineCount bareEndif))"
    using nb by simp_all
  have bc: "(0::nat) < min 60 (lineCount noEndif)"
    "(1::nat) < min (0 + 6) (min 60 (lineCount noEndif))"
    using nc by simp_all
  note A = extractGuardMacro_endif_choice [OF ba(1) la(1) p0 p1 ba(2) la(2)]
  note B = extractGuardMacro_endif_choice [OF bb(1) lb(1) p0 p1 bb(2) lb(2)]
  note C = extractGuardMacro_endif_choice [OF bc(1) lc(1) p0 p1 bc(2) lc(2)]
  have ra: "\<exists>g. extractGuardMacro twoEndifs = Some g \<and> macro g = ''FOO_H'' \<and> ifndefLine g = 0 \<and>
      endifLine g = 2"
  proof (rule A [THEN conjunct1, rule_format])
    have "\<not> isEndifOf ''FOO_H'' (lineAt twoEndifs k)" if "2 < k \<and> k < lineCount twoEndifs" for k
    proof -
      from that have "k = 3" using na by arith
      then show ?thesis using la(4) by simp
    qed
    then show "2 < lineCount twoEndifs \<and> isEndifOf ''FOO_H'' (lineAt twoEndifs 2) \<and>
      (\<forall>k. 2 < k \<and> k < lineCount twoEndifs \<longrightarrow> \<not> isEndifOf ''FOO_H'' (lineAt twoEndifs k))"
      using na la(3) by simp
  qed
  have rb: "\<exists>g. extractGuardMacro bareEndif = Some g \<and> macro g = ''FOO_H'' \<and> ifndefLine g = 0 \<and>
      endifLine g = 2"
  proof (rule B [THEN conjunct2, THEN conjunct1, rule_format])
    have 1: "\<not> isEndif (lineAt bareEndif k)" if "2 < k \<and> k < lineCount bareEndif" for k
    proof -
      from that have "k = 3" using nb by arith
      then show ?thesis using lb(8) by simp
    qed
    have 2: "\<not> isEndifOf ''FOO_H'' (lineAt bareEndif k)" if "k < lineCount bareEndif" for k
    proof -
      from that have "k = 0 \<or> k = 1 \<or> k = 2 \<or> k = 3" using nb lt4_cases by simp
      then show ?thesis using lb(3-6) by auto
    qed
    show "(\<forall>k. k < lineCount bareEndif \<longrightarrow> \<not> isEndifOf ''FOO_H'' (lineAt bareEndif k)) \<and>
      2 < lineCount bareEndif \<and> isEndif (lineAt bareEndif 2) \<and>
      (\<forall>k. 2 < k \<and> k < lineCount bareEndif \<longrightarrow> \<not> isEndif (lineAt bareEndif k))"
      using 1 2 nb lb(7) by simp
  qed
  have rc: "extractGuardMacro noEndif = None"
  proof (rule C [THEN conjunct2, THEN conjunct2, rule_format])
    fix k assume "k < lineCount noEndif"
    then have "k = 0 \<or> k = 1 \<or> k = 2" using nc lt3_cases by simp
    then show "\<not> isEndif (lineAt noEndif k)" using lc(3-5) by auto
  qed
  from ra la(5) rb rc show ?thesis by blast
qed

text \<open>
  Claim C10. There is a document whose guard has its \<open>endifLine\<close> before its
  \<open>ifndefLine\<close>, and one whose \<open>endifLine\<close> lies between \<open>ifndefLine\<close> and \<open>defineLine\<close>:
  the search from the bottom puts no order between the \<open>#endif\<close> and the header pair.
\<close>

theorem extractGuardMacro_endif_unordered:
  "(\<exists>doc g. extractGuardMacro doc = Some g \<and> endifLine g < ifndefLine g) \<and>
   (\<exists>doc g. extractGuardMacro doc = Some g \<and> ifndefLine g < endifLine g \<and>
        endifLine g < defineLine g)"
proof (rule conjI)
  have "extractGuardMacro endifFirst
     = Some \<lparr>macro = ''FOO_H'', ifndefLine = 1, defineLine = 2, endifLine = 0\<rparr>"
    by (simp add: endifFirst_def regex_defs doc_defs scan_defs)
  then show "\<exists>doc g. extractGuardMacro doc = Some g \<and> endifLine g < ifndefLine g"
    by (intro exI[of _ endifFirst]
       exI[of _ "\<lparr>macro = ''FOO_H'', ifndefLine = 1, defineLine = 2, endifLine = 0\<rparr>"]) simp
next
  have "extractGuardMacro endifInside
     = Some \<lparr>macro = ''FOO_H'', ifndefLine = 0, defineLine = 2, endifLine = 1\<rparr>"
    by (simp add: endifInside_def regex_defs doc_defs scan_defs)
  then show "\<exists>doc g. extractGuardMacro doc = Some g \<and> ifndefLine g < endifLine g \<and>
        endifLine g < defineLine g"
    by (intro exI[of _ endifInside]
       exI[of _ "\<lparr>macro = ''FOO_H'', ifndefLine = 0, defineLine = 2, endifLine = 1\<rparr>"]) simp
qed

section \<open>Macro namer: the name it gives\<close>

lemma isMacroChar_replaceUnit: "isMacroChar (replaceUnit u)"
  by (auto simp: replaceUnit_def isMacroChar_def inRange_def)

lemma list_all_replaceNonAlnum: "list_all isMacroChar (replaceNonAlnum us)"
  by (simp add: replaceNonAlnum_def list_all_iff isMacroChar_replaceUnit)

lemma hasHeaderSuffix_append_H: "hasHeaderSuffix (m @ ''_H'')"
  by (simp add: hasHeaderSuffix_def endsWith_def)

lemma hasHeaderSuffix_nonempty: "hasHeaderSuffix m \<Longrightarrow> m \<noteq> []"
  by (auto simp: hasHeaderSuffix_def endsWith_def)

lemma validMacro_macroOfRel: "validMacro (macroOfRel rel)"
proof (cases "hasHeaderSuffix (replaceNonAlnum (toUpperCase rel))")
  case True
  then show ?thesis
    by (simp add: validMacro_def macroOfRel_def list_all_replaceNonAlnum hasHeaderSuffix_nonempty)
next
  case False
  then show ?thesis
    using hasHeaderSuffix_append_H [of "replaceNonAlnum (toUpperCase rel)"]
    by (simp add: validMacro_def macroOfRel_def list_all_replaceNonAlnum isMacroChar_def
        inRange_def)
qed






section \<open>Commands that fail\<close>

lemma edit_outcome: "fst (edit doc es) = Edited \<or> fst (edit doc es) = EditRejected"
  by (simp add: edit_def split: option.splits)

lemma insertGuard_failure:
  "fst (insertGuard r doc) = NotAHeader \<or> fst (insertGuard r doc) = AlreadyProtected \<Longrightarrow>
   snd (insertGuard r doc) = doc"
  using edit_outcome [of doc "[Insert (0, 0) (guardHeader (computeMacro r doc)),
      Insert (lineCount doc, 0) (guardFooter (computeMacro r doc))]"]
  by (auto simp: insertGuard_def Let_def split: if_splits)

lemma usePragmaOnce_failure:
  "fst (usePragmaOnce doc) = NotAHeader \<or> fst (usePragmaOnce doc) = AlreadyProtected \<Longrightarrow>
   snd (usePragmaOnce doc) = doc"
  using edit_outcome [of doc "Insert (0, 0) ''#pragma once\<newline>\<newline>'' #
           (case extractGuardMacro doc of None \<Rightarrow> [] | Some g \<Rightarrow> guardDeletions doc g)"]
  by (auto simp: usePragmaOnce_def split: if_splits)

lemma toggle_failure:
  assumes a: "fst (toggleGuardOrPragma r doc) = NotAHeader \<or>
    fst (toggleGuardOrPragma r doc) = AlreadyProtected"
  shows "snd (toggleGuardOrPragma r doc) = doc"
proof (cases "isHeader doc")
  case False
  then show ?thesis by (simp add: toggleGuardOrPragma_def)
next
  case h: True
  show ?thesis
  proof (cases "hasPragmaOnce doc")
    case True
    with h have "toggleGuardOrPragma r doc = edit doc (pragmaDeletions doc 0 @
            [Insert (0, 0) (guardHeader (computeMacro r doc)),
             Insert (lineCount doc, 0) (guardFooter (computeMacro r doc))])"
      by (simp add: toggleGuardOrPragma_def Let_def)
    with a edit_outcome [of doc "pragmaDeletions doc 0 @
            [Insert (0, 0) (guardHeader (computeMacro r doc)),
             Insert (lineCount doc, 0) (guardFooter (computeMacro r doc))]"]
    show ?thesis by auto
  next
    case np: False
    show ?thesis
    proof (cases "extractGuardMacro doc")
      case None
      with h np have "toggleGuardOrPragma r doc = insertGuard r doc"
        by (simp add: toggleGuardOrPragma_def)
      with a insertGuard_failure [of r doc] show ?thesis by simp
    next
      case (Some g)
      with h np have "toggleGuardOrPragma r doc =
          edit doc (Insert (0, 0) ''#pragma once\<newline>\<newline>'' # guardDeletions doc g)"
        by (simp add: toggleGuardOrPragma_def)
      with a edit_outcome [of doc "Insert (0, 0) ''#pragma once\<newline>\<newline>'' # guardDeletions doc g"]
      show ?thesis by auto
    qed
  qed
qed

text \<open>
  Claim C2. A command that ends with \<open>NotAHeader\<close> (the extension is not one of \<open>.h\<close>,
  \<open>.hpp\<close>, \<open>.hh\<close>, \<open>.hxx\<close>, whatever the case) or with \<open>AlreadyProtected\<close> (\<open>insertGuard\<close>
  on a document with a pragma or a guard, \<open>usePragmaOnce\<close> on a document with a pragma)
  leaves the document as it was: no edit is applied.
\<close>

theorem failed_command_leaves_document:
  "(\<not> isHeader doc \<longrightarrow>
      insertGuard r doc = (NotAHeader, doc) \<and> usePragmaOnce doc = (NotAHeader, doc) \<and>
      toggleGuardOrPragma r doc = (NotAHeader, doc)) \<and>
   (isHeader doc \<and> (hasPragmaOnce doc \<or> extractGuardMacro doc \<noteq> None) \<longrightarrow>
      insertGuard r doc = (AlreadyProtected, doc)) \<and>
   (isHeader doc \<and> hasPragmaOnce doc \<longrightarrow> usePragmaOnce doc = (AlreadyProtected, doc)) \<and>
   (fst (insertGuard r doc) = NotAHeader \<or> fst (insertGuard r doc) = AlreadyProtected \<longrightarrow>
      snd (insertGuard r doc) = doc) \<and>
   (fst (usePragmaOnce doc) = NotAHeader \<or> fst (usePragmaOnce doc) = AlreadyProtected \<longrightarrow>
      snd (usePragmaOnce doc) = doc) \<and>
   (fst (toggleGuardOrPragma r doc) = NotAHeader \<or>
    fst (toggleGuardOrPragma r doc) = AlreadyProtected \<longrightarrow>
      snd (toggleGuardOrPragma r doc) = doc)"
proof -
  have 1: "\<not> isHeader doc \<longrightarrow>
      insertGuard r doc = (NotAHeader, doc) \<and> usePragmaOnce doc = (NotAHeader, doc) \<and>
      toggleGuardOrPragma r doc = (NotAHeader, doc)"
    by (simp add: insertGuard_def usePragmaOnce_def toggleGuardOrPragma_def)
  have 2: "isHeader doc \<and> (hasPragmaOnce doc \<or> extractGuardMacro doc \<noteq> None) \<longrightarrow>
      insertGuard r doc = (AlreadyProtected, doc)"
    by (auto simp: insertGuard_def)
  have 3: "isHeader doc \<and> hasPragmaOnce doc \<longrightarrow> usePragmaOnce doc = (AlreadyProtected, doc)"
    by (simp add: usePragmaOnce_def)
  from 1 2 3 insertGuard_failure [of r doc] usePragmaOnce_failure [of doc]
    toggle_failure [of r doc]
  show ?thesis by blast
qed

theorem failed_command_leaves_document_witness:
  "insertGuard insideFolder sourceFile = (NotAHeader, sourceFile) \<and>
   usePragmaOnce sourceFile = (NotAHeader, sourceFile) \<and>
   toggleGuardOrPragma insideFolder sourceFile = (NotAHeader, sourceFile) \<and>
   insertGuard insideFolder pragmaFirst = (AlreadyProtected, pragmaFirst) \<and>
   insertGuard insideFolder bareEndif = (AlreadyProtected, bareEndif) \<and>
   usePragmaOnce pragmaFirst = (AlreadyProtected, pragmaFirst) \<and>
   snd (insertGuard insideFolder pragmaFirst) = pragmaFirst"
proof -
  have s: "\<not> isHeader sourceFile" by (simp add: sourceFile_def path_defs)
  have h: "isHeader pragmaFirst" "isHeader bareEndif"
    by (simp_all add: pragmaFirst_def bareEndif_def header_def path_defs)
  have p: "hasPragmaOnce pragmaFirst"
    by (simp add: pragmaFirst_def regex_defs doc_defs scan_defs)
  have g: "extractGuardMacro bareEndif \<noteq> None"
    by (simp add: bareEndif_def regex_defs doc_defs scan_defs)
  note A = failed_command_leaves_document [of sourceFile insideFolder]
  note B = failed_command_leaves_document [of pragmaFirst insideFolder]
  note C = failed_command_leaves_document [of bareEndif insideFolder]
  from A s have 1: "insertGuard insideFolder sourceFile = (NotAHeader, sourceFile) \<and>
    usePragmaOnce sourceFile = (NotAHeader, sourceFile) \<and>
    toggleGuardOrPragma insideFolder sourceFile = (NotAHeader, sourceFile)" by blast
  from B h(1) p have 2: "insertGuard insideFolder pragmaFirst = (AlreadyProtected, pragmaFirst)"
    "usePragmaOnce pragmaFirst = (AlreadyProtected, pragmaFirst)" by blast+
  from C h(2) g have 3: "insertGuard insideFolder bareEndif = (AlreadyProtected, bareEndif)"
    by blast
  from 2(1) have "fst (insertGuard insideFolder pragmaFirst) = AlreadyProtected" by simp
  with B have 4: "snd (insertGuard insideFolder pragmaFirst) = pragmaFirst" by blast
  from 1 2 3 4 show ?thesis by blast
qed

text \<open>
  Claim C8. The loop of \<open>toggleGuardOrPragma\<close> that removes the pragma is said to skip
  comment lines as \<open>hasPragmaOnce\<close> does. On a document whose pragma follows a comment
  line, \<open>hasPragmaOnce\<close> is true, yet the command stages no deletion: the guard is put
  around a text that still holds \<open>#pragma once\<close>. With the pragma on the first line the
  directive is removed.
\<close>

theorem toggle_keeps_pragma_after_comment:
  "hasPragmaOnce commentThenPragma \<and>
   toggleGuardOrPragma insideFolder commentThenPragma =
     (Edited, header ''#ifndef FOO_H\<newline>#define FOO_H\<newline>\<newline>// c\<newline>#pragma once\<newline>int x;\<newline>#endif // FOO_H\<newline>'') \<and>
   toggleGuardOrPragma insideFolder pragmaFirst =
     (Edited, header ''#ifndef FOO_H\<newline>#define FOO_H\<newline>\<newline>\<newline>\<newline>int x;\<newline>#endif // FOO_H\<newline>'')"
  by (simp add: commentThenPragma_def pragmaFirst_def regex_defs doc_defs scan_defs path_defs edit_defs char_of_numeral_eq)

section \<open>Lines and offsets\<close>

lemma splitLines_nonempty [simp]: "splitLines t \<noteq> []"
  by (induction t) (auto split: list.splits)

lemma splitLines_append:
  "splitLines (a @ CHR 0x0A # b) = splitLines a @ splitLines b"
proof (induction a)
  case Nil
  then show ?case by simp
next
  case (Cons c a)
  then show ?case by (cases "splitLines a") auto
qed

lemma splitLines_single: "CHR 0x0A \<notin> set a \<Longrightarrow> splitLines a = [a]"
  by (induction a) auto

lemma splitLines_total:
  "sum_list (map (\<lambda>x. length x + 1) (splitLines t)) = length t + 1"
proof (induction t)
  case Nil
  then show ?case by simp
next
  case (Cons c t)
  then show ?case by (cases "splitLines t") auto
qed

lemma offsetAt_start [simp]: "offsetAt (splitLines t) (0, 0) = 0"
  by (simp add: offsetAt_def validatePosition_def lineStart_def)

lemma sum_take_butlast:
  "ls \<noteq> [] \<Longrightarrow> sum_list (map f (take (length ls - 1) ls)) + f (ls ! (length ls - 1)) = sum_list (map f ls)"
proof (induction ls rule: rev_induct)
  case Nil
  then show ?case by simp
next
  case (snoc x xs)
  then show ?case by (simp add: nth_append)
qed

lemma offsetAt_past_end:
  "length (splitLines t) \<le> l \<Longrightarrow> offsetAt (splitLines t) (l, c) = length t"
proof -
  assume a: "length (splitLines t) \<le> l"
  let ?ls = "splitLines t"
  have "sum_list (map (\<lambda>x. length x + 1) (take (length ?ls - 1) ?ls)) +
        (length (?ls ! (length ?ls - 1)) + 1) = length t + 1"
    using sum_take_butlast [of ?ls "\<lambda>x. length x + 1"] splitLines_total [of t] by simp
  then show ?thesis using a by (simp add: offsetAt_def validatePosition_def lineStart_def)
qed

lemma applyEdits_two_inserts:
  "applyEdits [Insert (0, 0) h, Insert (length (splitLines t), 0) f] t = Some (h @ t @ f)"
  by (simp add: applyEdits_def rangeOf_def offsetAt_past_end rangeLe_def)

section \<open>The lines of an inserted guard\<close>

lemma macroChar_not_space: "isMacroChar c \<Longrightarrow> \<not> isSpace c"
  by (auto simp: isMacroChar_def isSpace_def inRange_def)

lemma macroChar_word: "isMacroChar c \<Longrightarrow> isWordChar c"
  by (auto simp: isMacroChar_def isWordChar_def)

lemma macroChar_not_newline: "isMacroChar c \<Longrightarrow> c \<noteq> CHR 0x0A"
  by (auto simp: isMacroChar_def inRange_def)

lemma macro_no_newline: "list_all isMacroChar m \<Longrightarrow> CHR 0x0A \<notin> set m"
  using macroChar_not_newline by (auto simp: list_all_iff)

lemma macro_dropWhile: "m \<noteq> [] \<Longrightarrow> list_all isMacroChar m \<Longrightarrow> dropWhile isSpace m = m"
  by (cases m) (auto simp: macroChar_not_space)

lemma macro_takeWhile: "list_all isMacroChar m \<Longrightarrow> takeWhile isMacroChar m = m"
  by (simp add: list_all_iff)

lemma macro_last_word: "m \<noteq> [] \<Longrightarrow> list_all isMacroChar m \<Longrightarrow> isWordChar (last m)"
  by (simp add: list_all_iff macroChar_word)

lemma macro_startsWord: "m \<noteq> [] \<Longrightarrow> list_all isMacroChar m \<Longrightarrow> startsWord (m @ s)"
  by (cases m) (auto simp: startsWord_def macroChar_word)

lemma stripPrefix_append [simp]: "stripPrefix m (m @ s) = Some s"
  by (induction m) auto

lemma stripPrefix_self [simp]: "stripPrefix m m = Some []"
  using stripPrefix_append [of m "[]"] by simp

lemma isSpace_Char:
  "isSpace (Char b0 b1 b2 b3 b4 b5 b6 b7) \<longleftrightarrow>
   Char b0 b1 b2 b3 b4 b5 b6 b7 \<in>
     set [CHR 0x09, CHR 0x0A, CHR 0x0B, CHR 0x0C, CHR 0x0D, CHR 0x20, CHR 0xA0]"
  by (rule isSpace_def)

lemma isWordChar_Char:
  "isWordChar (Char b0 b1 b2 b3 b4 b5 b6 b7) \<longleftrightarrow>
   inRange 65 90 (Char b0 b1 b2 b3 b4 b5 b6 b7) \<or> inRange 97 122 (Char b0 b1 b2 b3 b4 b5 b6 b7) \<or>
   inRange 48 57 (Char b0 b1 b2 b3 b4 b5 b6 b7) \<or> Char b0 b1 b2 b3 b4 b5 b6 b7 = CHR ''_''"
  by (rule isWordChar_def)

lemmas literal_chars = isSpace_Char isWordChar_Char inRange_def isLineTerminator_def

lemma matchIfndef_line:
  "m \<noteq> [] \<Longrightarrow> list_all isMacroChar m \<Longrightarrow> matchIfndef (''#ifndef '' @ m) = Some m"
  by (simp add: matchIfndef_def directive_def spaces1_def macro_dropWhile macro_takeWhile
      literal_chars)

lemma isDefineOf_line:
  "m \<noteq> [] \<Longrightarrow> list_all isMacroChar m \<Longrightarrow> isDefineOf m (''#define '' @ m)"
  by (simp add: isDefineOf_def directive_def spaces1_def macro_dropWhile wordBoundary_def
      endsWord_def macro_last_word startsWord_def literal_chars)

lemma wordLater_self:
  "m \<noteq> [] \<Longrightarrow> list_all isMacroChar m \<Longrightarrow> wordLater False m m"
proof -
  assume a: "m \<noteq> []" "list_all isMacroChar m"
  then have "wordHere False m m"
    using macro_startsWord [of m "[]"]
    by (simp add: wordHere_def wordBoundary_def endsWord_def macro_last_word startsWord_def)
  with a show ?thesis by (cases m) auto
qed

lemma isEndifOf_line:
  "m \<noteq> [] \<Longrightarrow> list_all isMacroChar m \<Longrightarrow> isEndifOf m (''#endif // '' @ m)"
  by (simp add: isEndifOf_def directive_def wordBoundary_def startsWord_def literal_chars
      wordLater_self)

lemma ifndef_line_not_pragma: "\<not> isPragmaOnce (''#ifndef '' @ m)"
  by (simp add: isPragmaOnce_def directive_def literal_chars)

lemma dropWhile_head:
  "xs \<noteq> [] \<Longrightarrow> \<not> P (hd xs) \<Longrightarrow> dropWhile P (xs @ ys) = xs @ ys"
  by (cases xs) auto

lemma trim_ifndef_line:
  assumes "m \<noteq> []" "list_all isMacroChar m"
  shows "trim (''#ifndef '' @ m) = ''#ifndef '' @ m"
proof -
  have "list_all isMacroChar (rev m)" using assms(2) by simp
  then have "\<not> isSpace (hd (rev m))"
    using assms(1) by (cases "rev m") (auto simp: macroChar_not_space)
  then have "dropWhile isSpace (rev m @ s) = rev m @ s" for s
    using assms(1) by (simp add: dropWhile_head)
  then show ?thesis by (simp add: trim_def literal_chars)
qed

lemma ifndef_line_substantive:
  "m \<noteq> [] \<Longrightarrow> list_all isMacroChar m \<Longrightarrow> substantive (''#ifndef '' @ m)"
  using trim_ifndef_line [of m] by (simp add: substantive_def)

lemma ifndef_line_not_endif: "\<not> isEndif (''#ifndef '' @ m)"
  by (simp add: isEndif_def directive_def literal_chars)

lemma define_line_not_endif: "\<not> isEndif (''#define '' @ m)"
  by (simp add: isEndif_def directive_def literal_chars)

section \<open>Inserting a guard\<close>

lemma guard_form_lines:
  assumes "list_all isMacroChar m"
  shows "splitLines (guardHeader m @ x @ guardFooter m) =
     (''#ifndef '' @ m) # (''#define '' @ m) # [] # splitLines x @ [''#endif // '' @ m, []]"
proof -
  define A B E where "A = ''#ifndef '' @ m" and "B = ''#define '' @ m" and "E = ''#endif // '' @ m"
  have n: "CHR 0x0A \<notin> set A" "CHR 0x0A \<notin> set B" "CHR 0x0A \<notin> set E"
    using macro_no_newline [OF assms] by (simp_all add: A_def B_def E_def)
  have "guardHeader m @ x @ guardFooter m =
      A @ CHR 0x0A # B @ CHR 0x0A # [] @ CHR 0x0A # x @ CHR 0x0A # E @ CHR 0x0A # []"
    by (simp add: guardHeader_def guardFooter_def A_def B_def E_def)
  then have "splitLines (guardHeader m @ x @ guardFooter m) =
      splitLines A @ splitLines B @ splitLines [] @ splitLines x @ splitLines E @ splitLines []"
    by (simp only: splitLines_append)
  then have "splitLines (guardHeader m @ x @ guardFooter m) =
      A # B # [] # splitLines x @ [E, []]"
    using n by (simp add: splitLines_single)
  then show ?thesis unfolding A_def B_def E_def .
qed

lemma guard_form_extract:
  assumes m: "m \<noteq> []" "list_all isMacroChar m"
    and c: "content doc = guardHeader m @ x @ guardFooter m"
  shows "\<not> hasPragmaOnce doc \<and>
     (\<exists>k. extractGuardMacro doc =
            Some \<lparr>macro = m, ifndefLine = 0, defineLine = 1, endifLine = k\<rparr> \<and>
          2 \<le> k \<and> k < lineCount doc)"
proof -
  let ?n = "length (splitLines x) + 5"
  have ls: "docLines doc =
     (''#ifndef '' @ m) # (''#define '' @ m) # [] # splitLines x @ [''#endif // '' @ m, []]"
    using guard_form_lines [OF m(2), of x] c by (simp add: docLines_def)
  have n: "lineCount doc = ?n" by (simp add: lineCount_def ls)
  have l0: "lineAt doc 0 = ''#ifndef '' @ m" by (simp add: lineAt_def ls)
  have l1: "lineAt doc 1 = ''#define '' @ m" by (simp add: lineAt_def ls)
  have le: "lineAt doc (length (splitLines x) + 3) = ''#endif // '' @ m"
    by (simp add: lineAt_def ls nth_append)
  have p0: "\<not> isPragmaOnce (lineAt doc 0)" "substantive (lineAt doc 0)"
    "matchIfndef (lineAt doc 0) = Some m" "\<not> isEndif (lineAt doc 0)"
    unfolding l0 using m
    by (simp_all only: ifndef_line_not_pragma ifndef_line_substantive matchIfndef_line
        ifndef_line_not_endif not_False_eq_True)
  have p1: "isDefineOf m (lineAt doc 1)" "\<not> isEndif (lineAt doc 1)"
    unfolding l1 using m
    by (simp_all only: isDefineOf_line define_line_not_endif not_False_eq_True)
  have pe: "isEndifOf m (lineAt doc (length (splitLines x) + 3))"
    unfolding le using m by (rule isEndifOf_line)
  have np: "\<not> hasPragmaOnce doc"
    unfolding hasPragmaOnce_def
    by (subst hasPragmaOnceFrom.simps) (simp add: n p0)
  have fd: "findDefine doc m (min (0 + 6) (min 60 (lineCount doc))) (0 + 1) = Some 1"
    using p1 by (simp add: findDefine_Some n)
  have fi: "findIfndef doc (min 60 (lineCount doc)) 0 = Some (m, 0, Some 1)"
    using fd by (simp add: findIfndef_Some n p0)
  have "scanUp (isEndifOf m) doc (lineCount doc) \<noteq> None"
    using pe n by (auto simp: scanUp_None intro!: exI[of _ "length (splitLines x) + 3"])
  then obtain k where k: "scanUp (isEndifOf m) doc (lineCount doc) = Some k" by blast
  then have kp: "k < lineCount doc" "isEndifOf m (lineAt doc k)"
    by (simp_all add: scanUp_Some)
  from kp(2) have "isEndif (lineAt doc k)" by (rule isEndifOf_isEndif)
  with p0(4) p1(2) have "k \<noteq> 0" "k \<noteq> 1" by metis+
  then have k2: "2 \<le> k" by arith
  have "findEndif doc m = Some k" using k by (simp add: findEndif_def)
  with fi have "extractGuardMacro doc =
      Some \<lparr>macro = m, ifndefLine = 0, defineLine = 1, endifLine = k\<rparr>"
    by (simp add: extractGuardMacro_def)
  with np k2 kp(1) show ?thesis by blast
qed

lemma validMacro_computeMacro:
  "computeMacro r doc \<noteq> [] \<and> list_all isMacroChar (computeMacro r doc)"
  using validMacro_macroOfRel [of "relOf r doc"] by (simp add: computeMacro_def validMacro_def)

lemma insertGuard_applied:
  assumes "isHeader doc" "\<not> hasPragmaOnce doc" "extractGuardMacro doc = None"
  shows "insertGuard r doc =
     (Edited, doc\<lparr>content :=
        guardHeader (computeMacro r doc) @ content doc @ guardFooter (computeMacro r doc)\<rparr>)"
  using assms applyEdits_two_inserts [of _ "content doc"]
  by (simp add: insertGuard_def Let_def edit_def lineCount_def docLines_def)

text \<open>
  Claim C1. On a header without a pragma and without a guard, \<open>insertGuard\<close> applies its
  edit, and \<open>extractGuardMacro\<close> on the document that results finds a guard whose macro
  is \<open>computeMacro\<close> of the document.
\<close>

theorem insertGuard_then_extract:
  assumes "isHeader doc" "\<not> hasPragmaOnce doc" "extractGuardMacro doc = None"
  shows "fst (insertGuard r doc) = Edited \<and>
     (\<exists>g. extractGuardMacro (snd (insertGuard r doc)) = Some g \<and>
          macro g = computeMacro r doc)"
proof -
  let ?m = "computeMacro r doc"
  let ?d = "doc\<lparr>content := guardHeader ?m @ content doc @ guardFooter ?m\<rparr>"
  have i: "insertGuard r doc = (Edited, ?d)" using assms by (rule insertGuard_applied)
  have "content ?d = guardHeader ?m @ content doc @ guardFooter ?m" by simp
  from guard_form_extract [OF _ _ this] validMacro_computeMacro [of r doc]
  obtain k where "extractGuardMacro ?d =
      Some \<lparr>macro = ?m, ifndefLine = 0, defineLine = 1, endifLine = k\<rparr>" by blast
  with i show ?thesis by simp
qed

theorem insertGuard_then_extract_witness:
  "isHeader mathHeader \<and> \<not> hasPragmaOnce mathHeader \<and> extractGuardMacro mathHeader = None \<and>
   snd (insertGuard insideFolder mathHeader) =
     mathHeader\<lparr>content := ''#ifndef SRC_UTILS_MATH_H\<newline>#define SRC_UTILS_MATH_H\<newline>\<newline>\<newline>#endif // SRC_UTILS_MATH_H\<newline>''\<rparr> \<and>
   (\<exists>g. extractGuardMacro (snd (insertGuard insideFolder mathHeader)) = Some g \<and>
        macro g = ''SRC_UTILS_MATH_H'')"
proof -
  have h: "isHeader mathHeader" by (simp add: mathHeader_def path_defs)
  have p: "\<not> hasPragmaOnce mathHeader"
    by (simp add: mathHeader_def regex_defs doc_defs scan_defs)
  have x: "extractGuardMacro mathHeader = None"
    by (simp add: mathHeader_def regex_defs doc_defs scan_defs)
  have c: "computeMacro insideFolder mathHeader = ''SRC_UTILS_MATH_H''"
    by (simp add: mathHeader_def path_defs char_of_numeral_eq)
  have s: "snd (insertGuard insideFolder mathHeader) =
     mathHeader\<lparr>content := ''#ifndef SRC_UTILS_MATH_H\<newline>#define SRC_UTILS_MATH_H\<newline>\<newline>\<newline>#endif // SRC_UTILS_MATH_H\<newline>''\<rparr>"
  proof -
    have "insertGuard insideFolder mathHeader =
      (Edited, mathHeader\<lparr>content := guardHeader ''SRC_UTILS_MATH_H'' @ content mathHeader @
         guardFooter ''SRC_UTILS_MATH_H''\<rparr>)"
      using insertGuard_applied [OF h p x, of insideFolder] by (simp only: c)
    then show ?thesis by (simp add: guardHeader_def guardFooter_def mathHeader_def)
  qed
  from insertGuard_then_extract [OF h p x, of insideFolder] c
  have "\<exists>g. extractGuardMacro (snd (insertGuard insideFolder mathHeader)) = Some g \<and>
        macro g = ''SRC_UTILS_MATH_H''" by simp
  with h p x s show ?thesis by blast
qed

section \<open>Edits on lines\<close>

lemma lineStart_mono: "i \<le> j \<Longrightarrow> lineStart ls i \<le> lineStart ls j"
proof -
  assume "i \<le> j"
  then obtain k where j: "j = i + k" using le_Suc_ex by blast
  have "take (i + k) ls = take i ls @ take k (drop i ls)" by (simp add: take_add)
  then show ?thesis by (simp add: lineStart_def j)
qed

lemma lineStart_Suc:
  "l < length ls \<Longrightarrow> lineStart ls (Suc l) = lineStart ls l + length (ls ! l) + 1"
  by (simp add: lineStart_def take_Suc_conv_app_nth)

lemma lineStart_all: "lineStart (splitLines t) (length (splitLines t)) = length t + 1"
  using splitLines_total [of t] by (simp add: lineStart_def)

lemma line_end_le:
  assumes "l < length (splitLines t)"
  shows "lineStart (splitLines t) l + length (splitLines t ! l) \<le> length t"
proof -
  have "lineStart (splitLines t) (Suc l) \<le> lineStart (splitLines t) (length (splitLines t))"
    using assms by (intro lineStart_mono) simp
  then show ?thesis using assms by (simp add: lineStart_Suc lineStart_all)
qed

lemma offsetAt_line_start:
  "l < length ls \<Longrightarrow> offsetAt ls (l, 0) = lineStart ls l"
  by (simp add: offsetAt_def validatePosition_def)

lemma offsetAt_line_end:
  "l < length ls \<Longrightarrow> offsetAt ls (l, length (ls ! l)) = lineStart ls l + length (ls ! l)"
  by (simp add: offsetAt_def validatePosition_def)

section \<open>Edits that start with an insertion at the top\<close>

lemma insertRange_top:
  "insertRange (0, 0, x) rs = (0, 0, x) # rs"
  by (cases rs) (auto simp: rangeLe_def)

lemma overlapping_top: "overlapping ((0, 0, x) # rs) = overlapping rs"
  by (cases rs) auto

lemma applyEdits_insert_top:
  "applyEdits (Insert (0, 0) x # es) t = map_option (\<lambda>y. x @ y) (applyEdits es t)"
  by (simp add: applyEdits_def rangeOf_def insertRange_top overlapping_top Let_def)

lemma applySorted_last:
  "\<exists>y. applySorted t pos (rs @ [(s, e, x)]) = y @ x @ drop e t"
proof (induction rs arbitrary: pos)
  case Nil
  then show ?case by simp
next
  case (Cons a rs)
  obtain s' e' x' where a: "a = (s', e', x')" by (cases a)
  from Cons [of e'] obtain y where "applySorted t e' (rs @ [(s, e, x)]) = y @ x @ drop e t"
    by blast
  then show ?case by (simp add: a)
qed


section \<open>The deletions that remove the pragma\<close>

lemma isPragmaOnce_nonempty: "isPragmaOnce t \<Longrightarrow> t \<noteq> []"
  by (auto simp: isPragmaOnce_def directive_def)

lemma pragmaDeletions_shape:
  "pragmaDeletions doc i0 = [] \<or>
   (\<exists>i. i < lineCount doc \<and> isPragmaOnce (lineAt doc i) \<and>
        (pragmaDeletions doc i0 = [Delete (i, 0) (i, length (lineAt doc i))] \<or>
         i + 1 < lineCount doc \<and>
         pragmaDeletions doc i0 =
           [Delete (i, 0) (i, length (lineAt doc i)),
            Delete (i + 1, 0) (i + 1, length (lineAt doc (i + 1)))]))"
proof (induction doc i0 rule: pragmaDeletions.induct)
  case (1 doc i)
  show ?case
  proof (cases "i < min 50 (lineCount doc)")
    case False
    then have "pragmaDeletions doc i = []" by (subst pragmaDeletions.simps) auto
    then show ?thesis by simp
  next
    case inb: True
    show ?thesis
    proof (cases "isPragmaOnce (lineAt doc i)")
      case True
      then have "pragmaDeletions doc i =
          Delete (i, 0) (i, length (lineAt doc i)) #
           (if i + 1 < lineCount doc \<and> trim (lineAt doc (i + 1)) = []
            then [Delete (i + 1, 0) (i + 1, length (lineAt doc (i + 1)))]
            else [])"
        using inb by (subst pragmaDeletions.simps) (auto simp: Let_def)
      with inb True show ?thesis by (intro disjI2 exI[of _ i]) auto
    next
      case np: False
      show ?thesis
      proof (cases "trim (lineAt doc i) \<noteq> []")
        case True
        then have "pragmaDeletions doc i = []"
          using inb np by (subst pragmaDeletions.simps) (auto simp: Let_def)
        then show ?thesis by simp
      next
        case False
        then have "pragmaDeletions doc i = pragmaDeletions doc (i + 1)"
          using inb np by (subst pragmaDeletions.simps) (auto simp: Let_def)
        with "1.IH" [OF inb refl np False] show ?thesis by simp
      qed
    qed
  qed
qed

lemma sort_two_deletions:
  "0 < e1 \<Longrightarrow> s1 \<le> e1 \<Longrightarrow> e1 < s2 \<Longrightarrow> s2 \<le> e2 \<Longrightarrow> e2 \<le> L \<Longrightarrow>
   sortRanges [(s1, e1, x1), (s2, e2, x2), (0, 0, h), (L, L, f)] =
     [(0, 0, h), (s1, e1, x1), (s2, e2, x2), (L, L, f)]"
  by (auto simp: rangeLe_def)

lemma sort_one_deletion:
  "0 < e1 \<Longrightarrow> s1 \<le> e1 \<Longrightarrow> e1 \<le> L \<Longrightarrow>
   sortRanges [(s1, e1, x1), (0, 0, h), (L, L, f)] = [(0, 0, h), (s1, e1, x1), (L, L, f)]"
  by (auto simp: rangeLe_def)

lemma toggle_pragma_edit:
  "\<exists>x. applyEdits (pragmaDeletions doc 0 @
       [Insert (0, 0) h, Insert (lineCount doc, 0) f]) (content doc) = Some (h @ x @ f)"
proof -
  let ?t = "content doc"
  let ?ls = "splitLines ?t"
  let ?L = "length ?t"
  have n: "lineCount doc = length ?ls" by (simp add: lineCount_def docLines_def)
  have la: "lineAt doc k = ?ls ! k" for k by (simp add: lineAt_def docLines_def)
  have last: "offsetAt ?ls (lineCount doc, 0) = ?L" by (simp add: n offsetAt_past_end)
  from pragmaDeletions_shape [of doc 0] consider
    (none) "pragmaDeletions doc 0 = []"
    | (one) i where "i < lineCount doc" "isPragmaOnce (lineAt doc i)"
        "pragmaDeletions doc 0 = [Delete (i, 0) (i, length (lineAt doc i))]"
    | (two) i where "i < lineCount doc" "isPragmaOnce (lineAt doc i)" "i + 1 < lineCount doc"
        "pragmaDeletions doc 0 =
           [Delete (i, 0) (i, length (lineAt doc i)),
            Delete (i + 1, 0) (i + 1, length (lineAt doc (i + 1)))]"
    by blast
  then show ?thesis
  proof cases
    case none
    then show ?thesis
      using applyEdits_two_inserts [of h ?t f] by (auto simp: n intro: exI[of _ ?t])
  next
    case (one i)
    let ?s = "lineStart ?ls i"
    let ?e = "lineStart ?ls i + length (?ls ! i)"
    have i: "i < length ?ls" using one(1) n by simp
    have pos: "0 < ?e" using isPragmaOnce_nonempty [OF one(2)] la by simp
    have le: "?e \<le> ?L" using line_end_le [OF i] .
    have r: "map (rangeOf ?ls) (pragmaDeletions doc 0 @
         [Insert (0, 0) h, Insert (lineCount doc, 0) f]) =
        [(?s, ?e, []), (0, 0, h), (?L, ?L, f)]"
      using i by (simp add: one(3) rangeOf_def la last offsetAt_line_start offsetAt_line_end)
    have "applyEdits (pragmaDeletions doc 0 @
         [Insert (0, 0) h, Insert (lineCount doc, 0) f]) ?t =
         Some (h @ (take ?s ?t @ drop ?e ?t) @ f)"
    proof -
      have srt: "sortRanges [(?s, ?e, []), (0, 0, h), (?L, ?L, f)] =
          [(0, 0, h), (?s, ?e, []), (?L, ?L, f)]"
        by (rule sort_one_deletion [OF pos _ le]) simp
      show ?thesis unfolding applyEdits_def r srt using le by (simp add: Let_def)
    qed
    then show ?thesis by blast
  next
    case (two i)
    let ?s = "lineStart ?ls i"
    let ?e = "lineStart ?ls i + length (?ls ! i)"
    let ?s2 = "lineStart ?ls (i + 1)"
    let ?e2 = "lineStart ?ls (i + 1) + length (?ls ! (i + 1))"
    have i: "i < length ?ls" "i + 1 < length ?ls" using two(1,3) n by simp_all
    have pos: "0 < ?e" using isPragmaOnce_nonempty [OF two(2)] la by simp
    have lt: "?e < ?s2" using i(1) by (simp add: lineStart_Suc)
    have le: "?e2 \<le> ?L" using line_end_le [OF i(2)] .
    have r: "map (rangeOf ?ls) (pragmaDeletions doc 0 @
         [Insert (0, 0) h, Insert (lineCount doc, 0) f]) =
        [(?s, ?e, []), (?s2, ?e2, []), (0, 0, h), (?L, ?L, f)]"
      using i by (simp add: two(4) rangeOf_def la last offsetAt_line_start offsetAt_line_end)
    have "applyEdits (pragmaDeletions doc 0 @
         [Insert (0, 0) h, Insert (lineCount doc, 0) f]) ?t =
         Some (h @ (take ?s ?t @ take (?s2 - ?e) (drop ?e ?t) @ drop ?e2 ?t) @ f)"
    proof -
      have srt: "sortRanges [(?s, ?e, []), (?s2, ?e2, []), (0, 0, h), (?L, ?L, f)] =
          [(0, 0, h), (?s, ?e, []), (?s2, ?e2, []), (?L, ?L, f)]"
        by (rule sort_two_deletions [OF pos _ lt _ le]) simp_all
      show ?thesis unfolding applyEdits_def r srt using lt le by (simp add: Let_def)
    qed
    then show ?thesis by blast
  qed
qed

section \<open>The deletions that remove a guard\<close>

lemma stripPrefix_first: "stripPrefix (p # ps) s = Some r \<Longrightarrow> \<exists>s'. s = p # s'"
  by (cases s) (auto split: if_splits)

lemma directive_clash:
  "directive (p # ps) t = Some r \<Longrightarrow> directive (q # qs) t = Some r' \<Longrightarrow> p = q"
proof -
  assume a: "directive (p # ps) t = Some r" and b: "directive (q # qs) t = Some r'"
  from a obtain u where u: "dropWhile isSpace t = CHR ''#'' # u"
    "stripPrefix (p # ps) (dropWhile isSpace u) = Some r"
    by (auto simp: directive_def split: list.splits if_splits)
  from b u(1) have "stripPrefix (q # qs) (dropWhile isSpace u) = Some r'"
    by (auto simp: directive_def split: list.splits if_splits)
  from stripPrefix_first [OF this] stripPrefix_first [OF u(2)] show ?thesis by auto
qed

lemma not_endif_of_ifndef: "matchIfndef t = Some m \<Longrightarrow> \<not> isEndif t"
proof
  assume "matchIfndef t = Some m" "isEndif t"
  then obtain r r' where "directive ''ifndef'' t = Some r" "directive ''endif'' t = Some r'"
    by (auto simp: matchIfndef_def isEndif_def split: option.splits)
  from directive_clash [OF this] show False by simp
qed

lemma not_endif_of_define: "isDefineOf m t \<Longrightarrow> \<not> isEndif t"
proof
  assume "isDefineOf m t" "isEndif t"
  then obtain r r' where "directive ''define'' t = Some r" "directive ''endif'' t = Some r'"
    by (auto simp: isDefineOf_def isEndif_def split: option.splits)
  from directive_clash [OF this] show False by simp
qed

lemma findEndif_Some:
  "findEndif doc m = Some k \<Longrightarrow> k < lineCount doc \<and> isEndif (lineAt doc k)"
  by (auto simp: findEndif_def scanUp_Some isEndifOf_isEndif split: option.splits)

lemma guard_lines:
  assumes "extractGuardMacro doc = Some g"
  shows "ifndefLine g < defineLine g" "defineLine g < lineCount doc"
    "endifLine g < lineCount doc" "endifLine g \<noteq> ifndefLine g" "endifLine g \<noteq> defineLine g"
proof -
  from assms have f: "findIfndef doc (min 60 (lineCount doc)) 0 =
      Some (macro g, ifndefLine g, Some (defineLine g))"
    and e: "findEndif doc (macro g) = Some (endifLine g)"
    by (simp_all add: extractGuardMacro_Some_iff)
  from f have i: "matchIfndef (lineAt doc (ifndefLine g)) = Some (macro g)"
    and d: "findDefine doc (macro g) (min (ifndefLine g + 6) (min 60 (lineCount doc)))
        (ifndefLine g + 1) = Some (defineLine g)"
    by (simp_all add: findIfndef_Some)
  from d have d': "ifndefLine g + 1 \<le> defineLine g"
    "defineLine g < min (ifndefLine g + 6) (min 60 (lineCount doc))"
    "isDefineOf (macro g) (lineAt doc (defineLine g))"
    by (simp_all add: findDefine_Some)
  from d' show "ifndefLine g < defineLine g" "defineLine g < lineCount doc" by simp_all
  from findEndif_Some [OF e] show "endifLine g < lineCount doc" by simp
  from findEndif_Some [OF e] not_endif_of_ifndef [OF i]
  show "endifLine g \<noteq> ifndefLine g" by metis
  from findEndif_Some [OF e] not_endif_of_define [OF d'(3)]
  show "endifLine g \<noteq> defineLine g" by metis
qed

text \<open>Where the header deletion ends: at the start of the line after the \<open>#define\<close>,
  or at the end of the text when the \<open>#define\<close> is on the last line.\<close>

lemma offsetAt_after:
  "d < length (splitLines t) \<Longrightarrow>
   offsetAt (splitLines t) (d + 1, 0) =
     (if d + 1 < length (splitLines t) then lineStart (splitLines t) (d + 1) else length t)"
  by (simp add: offsetAt_line_start offsetAt_past_end)

lemma header_end_bounds:
  assumes "i < d" "d < length (splitLines t)"
  shows "lineStart (splitLines t) i + length (splitLines t ! i) <
      offsetAt (splitLines t) (d + 1, 0)"
    "offsetAt (splitLines t) (d + 1, 0) \<le> length t"
proof -
  let ?ls = "splitLines t"
  define v where "v = offsetAt ?ls (d + 1, 0)"
  have v: "v = (if d + 1 < length ?ls then lineStart ?ls (d + 1) else length t)"
    unfolding v_def using assms(2) by (rule offsetAt_after)
  have 1: "lineStart ?ls (Suc i) \<le> lineStart ?ls d" using assms(1) by (intro lineStart_mono) simp
  have 2: "lineStart ?ls d + length (?ls ! d) \<le> length t" using assms(2) by (rule line_end_le)
  have 3: "lineStart ?ls (Suc i) = lineStart ?ls i + length (?ls ! i) + 1"
    using assms by (intro lineStart_Suc) simp
  have 4: "lineStart ?ls (Suc d) = lineStart ?ls d + length (?ls ! d) + 1"
    using assms by (intro lineStart_Suc) simp
  have 5: "d + 1 < length ?ls \<Longrightarrow> lineStart ?ls (Suc d) + length (?ls ! Suc d) \<le> length t"
    using line_end_le [of "Suc d" t] by simp
  have "lineStart ?ls i + length (?ls ! i) < v" "v \<le> length t"
    using 1 2 3 4 5 by (auto simp: v)
  then show "lineStart ?ls i + length (?ls ! i) < offsetAt ?ls (d + 1, 0)"
    "offsetAt ?ls (d + 1, 0) \<le> length t"
    unfolding v_def .
qed

lemma guard_ranges:
  assumes "extractGuardMacro doc = Some g"
  shows "map (rangeOf (splitLines (content doc))) (guardDeletions doc g) =
     [(lineStart (splitLines (content doc)) (ifndefLine g),
       offsetAt (splitLines (content doc)) (defineLine g + 1, 0), []),
      (lineStart (splitLines (content doc)) (endifLine g),
       lineStart (splitLines (content doc)) (endifLine g) +
         length (splitLines (content doc) ! endifLine g), [])]"
proof -
  let ?ls = "splitLines (content doc)"
  note gl = guard_lines [OF assms]
  have n: "lineCount doc = length ?ls" by (simp add: lineCount_def docLines_def)
  have i: "ifndefLine g < length ?ls" "defineLine g < length ?ls" "endifLine g < length ?ls"
    using gl n by simp_all
  have "lineStart ?ls (ifndefLine g) \<le> offsetAt ?ls (defineLine g + 1, 0)"
    using header_end_bounds(1) [OF gl(1) i(2)] by simp
  then show ?thesis
    using i by (simp add: guardDeletions_def rangeOf_def offsetAt_line_start offsetAt_line_end
        lineAt_def docLines_def min_def max_def)
qed

text \<open>The three places of the \<open>#endif\<close>: after the header, before it, inside it.\<close>

lemma guard_edit_after:
  assumes "extractGuardMacro doc = Some g" "defineLine g < endifLine g"
  shows "applyEdits (guardDeletions doc g) (content doc) =
     Some (take (lineStart (splitLines (content doc)) (ifndefLine g)) (content doc) @
           take (lineStart (splitLines (content doc)) (endifLine g) -
                 lineStart (splitLines (content doc)) (defineLine g + 1))
             (drop (lineStart (splitLines (content doc)) (defineLine g + 1)) (content doc)) @
           drop (lineStart (splitLines (content doc)) (endifLine g) +
                 length (splitLines (content doc) ! endifLine g)) (content doc))"
proof -
  let ?t = "content doc"
  let ?ls = "splitLines ?t"
  note gl = guard_lines [OF assms(1)]
  have n: "lineCount doc = length ?ls" by (simp add: lineCount_def docLines_def)
  have d1: "defineLine g + 1 < length ?ls" using assms(2) gl(3) n by simp
  have ea: "offsetAt ?ls (defineLine g + 1, 0) = lineStart ?ls (defineLine g + 1)"
    using d1 by (simp add: offsetAt_line_start)
  have m: "lineStart ?ls (defineLine g + 1) \<le> lineStart ?ls (endifLine g)"
    using assms(2) by (intro lineStart_mono) simp
  have le: "rangeLe (lineStart ?ls (ifndefLine g), lineStart ?ls (defineLine g + 1), [])
         (lineStart ?ls (endifLine g), lineStart ?ls (endifLine g) + length (?ls ! endifLine g), [])"
    using m lineStart_mono [of "ifndefLine g" "endifLine g" ?ls] gl(1) assms(2)
    by (auto simp: rangeLe_def)
  show ?thesis
    unfolding applyEdits_def guard_ranges [OF assms(1)] ea
    using le m by (simp add: Let_def)
qed

lemma guard_edit_before:
  assumes "extractGuardMacro doc = Some g" "endifLine g < ifndefLine g"
  shows "applyEdits (guardDeletions doc g) (content doc) =
     Some (take (lineStart (splitLines (content doc)) (endifLine g)) (content doc) @
           take (lineStart (splitLines (content doc)) (ifndefLine g) -
                 (lineStart (splitLines (content doc)) (endifLine g) +
                  length (splitLines (content doc) ! endifLine g)))
             (drop (lineStart (splitLines (content doc)) (endifLine g) +
                  length (splitLines (content doc) ! endifLine g)) (content doc)) @
           drop (offsetAt (splitLines (content doc)) (defineLine g + 1, 0)) (content doc))"
proof -
  let ?t = "content doc"
  let ?ls = "splitLines ?t"
  note gl = guard_lines [OF assms(1)]
  have n: "lineCount doc = length ?ls" by (simp add: lineCount_def docLines_def)
  have i: "ifndefLine g < length ?ls" "defineLine g < length ?ls" "endifLine g < length ?ls"
    using gl n by simp_all
  have hb: "lineStart ?ls (ifndefLine g) + length (?ls ! ifndefLine g) <
      offsetAt ?ls (defineLine g + 1, 0)"
    using header_end_bounds(1) [OF gl(1) i(2)] .
  have m: "lineStart ?ls (Suc (endifLine g)) \<le> lineStart ?ls (ifndefLine g)"
    using assms(2) by (intro lineStart_mono) simp
  have s: "lineStart ?ls (Suc (endifLine g)) =
      lineStart ?ls (endifLine g) + length (?ls ! endifLine g) + 1"
    using i(3) by (rule lineStart_Suc)
  have nle: "\<not> rangeLe (lineStart ?ls (ifndefLine g), offsetAt ?ls (defineLine g + 1, 0), [])
         (lineStart ?ls (endifLine g), lineStart ?ls (endifLine g) + length (?ls ! endifLine g), [])"
    using m s hb by (auto simp: rangeLe_def)
  show ?thesis
    unfolding applyEdits_def guard_ranges [OF assms(1)]
    using nle m s by (simp add: Let_def)
qed

lemma guard_edit_inside:
  assumes "extractGuardMacro doc = Some g" "ifndefLine g < endifLine g"
    "endifLine g < defineLine g"
  shows "applyEdits (guardDeletions doc g) (content doc) = None"
proof -
  let ?t = "content doc"
  let ?ls = "splitLines ?t"
  note gl = guard_lines [OF assms(1)]
  have n: "lineCount doc = length ?ls" by (simp add: lineCount_def docLines_def)
  have i: "ifndefLine g < length ?ls" "defineLine g < length ?ls" "endifLine g < length ?ls"
    using gl n by simp_all
  have hb: "lineStart ?ls (endifLine g) + length (?ls ! endifLine g) <
      offsetAt ?ls (defineLine g + 1, 0)"
    using header_end_bounds(1) [OF assms(3) i(2)] .
  have m: "lineStart ?ls (Suc (ifndefLine g)) \<le> lineStart ?ls (endifLine g)"
    using assms(2) by (intro lineStart_mono) simp
  have s: "lineStart ?ls (Suc (ifndefLine g)) =
      lineStart ?ls (ifndefLine g) + length (?ls ! ifndefLine g) + 1"
    using i(1) by (rule lineStart_Suc)
  have nle: "\<not> rangeLe (lineStart ?ls (ifndefLine g), offsetAt ?ls (defineLine g + 1, 0), [])
         (lineStart ?ls (endifLine g), lineStart ?ls (endifLine g) + length (?ls ! endifLine g), [])"
    using hb by (auto simp: rangeLe_def)
  show ?thesis
    unfolding applyEdits_def guard_ranges [OF assms(1)]
    using nle m s by (simp add: Let_def)
qed

section \<open>Toggling\<close>

lemma isHeader_content [simp]: "isHeader (doc\<lparr>content := c\<rparr>) = isHeader doc"
  by (simp add: isHeader_def)

lemma computeMacro_content [simp]: "computeMacro r (doc\<lparr>content := c\<rparr>) = computeMacro r doc"
  by (simp add: computeMacro_def relOf_def split: option.splits)

lemma pragma_form_detected:
  assumes "content doc = ''#pragma once\<newline>\<newline>'' @ y"
  shows "hasPragmaOnce doc"
proof -
  have "content doc = ''#pragma once'' @ CHR 0x0A # [] @ CHR 0x0A # y"
    using assms by simp
  then have "splitLines (content doc) = splitLines ''#pragma once'' @ splitLines [] @ splitLines y"
    by (simp only: splitLines_append)
  then have ls: "docLines doc = ''#pragma once'' # [] # splitLines y"
    by (simp add: docLines_def)
  have l0: "lineAt doc 0 = ''#pragma once''" by (simp add: lineAt_def ls)
  have p: "isPragmaOnce (lineAt doc 0)" unfolding l0 by (simp add: regex_defs)
  have n: "0 < lineCount doc" by (simp add: lineCount_def ls)
  show ?thesis
    unfolding hasPragmaOnce_def using p n by (subst hasPragmaOnceFrom.simps) simp
qed

lemma state_pragma_form:
  "content doc = ''#pragma once\<newline>\<newline>'' @ y \<Longrightarrow> protectionState doc = PragmaOnce"
  by (simp add: protectionState_def pragma_form_detected)

lemma state_guard_form:
  "m \<noteq> [] \<Longrightarrow> list_all isMacroChar m \<Longrightarrow>
   content doc = guardHeader m @ x @ guardFooter m \<Longrightarrow> protectionState doc = Guard"
  using guard_form_extract [of m doc x] by (auto simp: protectionState_def)

lemma toggle_from_pragma:
  assumes "isHeader doc" "hasPragmaOnce doc"
  shows "\<exists>x. toggleGuardOrPragma r doc =
     (Edited, doc\<lparr>content :=
        guardHeader (computeMacro r doc) @ x @ guardFooter (computeMacro r doc)\<rparr>)"
proof -
  from toggle_pragma_edit [of doc "guardHeader (computeMacro r doc)"
      "guardFooter (computeMacro r doc)"]
  obtain x where "applyEdits (pragmaDeletions doc 0 @
       [Insert (0, 0) (guardHeader (computeMacro r doc)),
        Insert (lineCount doc, 0) (guardFooter (computeMacro r doc))]) (content doc) =
      Some (guardHeader (computeMacro r doc) @ x @ guardFooter (computeMacro r doc))"
    by blast
  with assms have "toggleGuardOrPragma r doc =
     (Edited, doc\<lparr>content :=
        guardHeader (computeMacro r doc) @ x @ guardFooter (computeMacro r doc)\<rparr>)"
    by (simp add: toggleGuardOrPragma_def Let_def edit_def)
  then show ?thesis by blast
qed

lemma guard_edit_outside:
  assumes "extractGuardMacro doc = Some g"
    "\<not> (ifndefLine g < endifLine g \<and> endifLine g < defineLine g)"
  shows "\<exists>y. applyEdits (guardDeletions doc g) (content doc) = Some y"
proof -
  note gl = guard_lines [OF assms(1)]
  from assms(2) gl(4,5) have "defineLine g < endifLine g \<or> endifLine g < ifndefLine g"
    by arith
  then show ?thesis
    using guard_edit_after [OF assms(1)] guard_edit_before [OF assms(1)] by blast
qed

lemma toggle_from_guard:
  assumes "isHeader doc" "\<not> hasPragmaOnce doc" "extractGuardMacro doc = Some g"
  shows "(ifndefLine g < endifLine g \<and> endifLine g < defineLine g \<longrightarrow>
            toggleGuardOrPragma r doc = (EditRejected, doc)) \<and>
         (\<not> (ifndefLine g < endifLine g \<and> endifLine g < defineLine g) \<longrightarrow>
            (\<exists>y. toggleGuardOrPragma r doc =
               (Edited, doc\<lparr>content := ''#pragma once\<newline>\<newline>'' @ y\<rparr>)))"
proof -
  have t: "toggleGuardOrPragma r doc =
      edit doc (Insert (0, 0) ''#pragma once\<newline>\<newline>'' # guardDeletions doc g)"
    using assms by (simp add: toggleGuardOrPragma_def)
  have a: "toggleGuardOrPragma r doc = (EditRejected, doc)"
    if "ifndefLine g < endifLine g \<and> endifLine g < defineLine g"
    using guard_edit_inside [OF assms(3)] that
    by (simp add: t edit_def applyEdits_insert_top)
  have b: "\<exists>y. toggleGuardOrPragma r doc =
       (Edited, doc\<lparr>content := ''#pragma once\<newline>\<newline>'' @ y\<rparr>)"
    if "\<not> (ifndefLine g < endifLine g \<and> endifLine g < defineLine g)"
  proof -
    from guard_edit_outside [OF assms(3) that] obtain y where
      "applyEdits (guardDeletions doc g) (content doc) = Some y" by blast
    then have "toggleGuardOrPragma r doc =
       (Edited, doc\<lparr>content := ''#pragma once\<newline>\<newline>'' @ y\<rparr>)"
      by (simp add: t edit_def applyEdits_insert_top)
    then show ?thesis by blast
  qed
  from a b show ?thesis by blast
qed

lemma toggle_guard_form:
  assumes "isHeader doc" "m \<noteq> []" "list_all isMacroChar m"
    "content doc = guardHeader m @ x @ guardFooter m"
  shows "\<exists>y. toggleGuardOrPragma r doc =
     (Edited, doc\<lparr>content := ''#pragma once\<newline>\<newline>'' @ y\<rparr>)"
proof -
  from guard_form_extract [OF assms(2,3,4)] obtain k where
    np: "\<not> hasPragmaOnce doc" and
    x: "extractGuardMacro doc = Some \<lparr>macro = m, ifndefLine = 0, defineLine = 1, endifLine = k\<rparr>"
    and k: "2 \<le> k" by blast
  from toggle_from_guard [OF assms(1) np x, of r] k show ?thesis by simp
qed

lemma toggle_twice_from_pragma:
  assumes "isHeader doc" "hasPragmaOnce doc"
  shows "protectionState (snd (toggleGuardOrPragma r doc)) = Guard"
    "protectionState (snd (toggleGuardOrPragma r (snd (toggleGuardOrPragma r doc)))) = PragmaOnce"
proof -
  let ?m = "computeMacro r doc"
  from toggle_from_pragma [OF assms, of r] obtain x where
    t1: "toggleGuardOrPragma r doc =
      (Edited, doc\<lparr>content := guardHeader ?m @ x @ guardFooter ?m\<rparr>)" by blast
  let ?d1 = "doc\<lparr>content := guardHeader ?m @ x @ guardFooter ?m\<rparr>"
  note vm = validMacro_computeMacro [of r doc]
  have c1: "content ?d1 = guardHeader ?m @ x @ guardFooter ?m" by simp
  have h1: "isHeader ?d1" using assms(1) by simp
  show "protectionState (snd (toggleGuardOrPragma r doc)) = Guard"
    using state_guard_form [OF _ _ c1] vm by (simp add: t1)
  from toggle_guard_form [OF h1 _ _ c1, of r] vm obtain y where
    "toggleGuardOrPragma r ?d1 = (Edited, ?d1\<lparr>content := ''#pragma once\<newline>\<newline>'' @ y\<rparr>)"
    by blast
  then show "protectionState (snd (toggleGuardOrPragma r (snd (toggleGuardOrPragma r doc)))) =
      PragmaOnce"
    using state_pragma_form [of "?d1\<lparr>content := ''#pragma once\<newline>\<newline>'' @ y\<rparr>" y]
    by (simp add: t1)
qed

lemma toggle_twice_from_guard:
  assumes "isHeader doc" "\<not> hasPragmaOnce doc" "extractGuardMacro doc = Some g"
  shows "protectionState (snd (toggleGuardOrPragma r (snd (toggleGuardOrPragma r doc)))) = Guard"
proof (cases "ifndefLine g < endifLine g \<and> endifLine g < defineLine g")
  case True
  with toggle_from_guard [OF assms, of r] have "toggleGuardOrPragma r doc = (EditRejected, doc)"
    by blast
  then show ?thesis using assms by (simp add: protectionState_def)
next
  case False
  with toggle_from_guard [OF assms, of r] obtain y where
    t1: "toggleGuardOrPragma r doc = (Edited, doc\<lparr>content := ''#pragma once\<newline>\<newline>'' @ y\<rparr>)"
    by blast
  let ?d1 = "doc\<lparr>content := ''#pragma once\<newline>\<newline>'' @ y\<rparr>"
  have p1: "hasPragmaOnce ?d1" by (rule pragma_form_detected [of _ y]) simp
  have h1: "isHeader ?d1" using assms(1) by simp
  have "protectionState (snd (toggleGuardOrPragma r ?d1)) = Guard"
    using h1 p1 by (rule toggle_twice_from_pragma(1))
  then show ?thesis by (simp add: t1)
qed

lemma toggle_twice_from_none:
  assumes "isHeader doc" "\<not> hasPragmaOnce doc" "extractGuardMacro doc = None"
  shows "protectionState (snd (toggleGuardOrPragma r (snd (toggleGuardOrPragma r doc)))) =
     PragmaOnce"
proof -
  let ?m = "computeMacro r doc"
  let ?d1 = "doc\<lparr>content := guardHeader ?m @ content doc @ guardFooter ?m\<rparr>"
  have t1: "toggleGuardOrPragma r doc = (Edited, ?d1)"
    using assms insertGuard_applied [OF assms, of r] by (simp add: toggleGuardOrPragma_def)
  note vm = validMacro_computeMacro [of r doc]
  have c1: "content ?d1 = guardHeader ?m @ content doc @ guardFooter ?m" by simp
  have h1: "isHeader ?d1" using assms(1) by simp
  from toggle_guard_form [OF h1 _ _ c1, of r] vm obtain y where
    "toggleGuardOrPragma r ?d1 = (Edited, ?d1\<lparr>content := ''#pragma once\<newline>\<newline>'' @ y\<rparr>)"
    by blast
  then show ?thesis
    using state_pragma_form [of "?d1\<lparr>content := ''#pragma once\<newline>\<newline>'' @ y\<rparr>" y]
    by (simp add: t1)
qed

lemma toggle_once_from_guard:
  assumes "isHeader doc" "\<not> hasPragmaOnce doc" "extractGuardMacro doc = Some g"
  shows "protectionState (snd (toggleGuardOrPragma r doc)) = PragmaOnce \<or>
     toggleGuardOrPragma r doc = (EditRejected, doc)"
proof (cases "ifndefLine g < endifLine g \<and> endifLine g < defineLine g")
  case True
  with toggle_from_guard [OF assms, of r] show ?thesis by blast
next
  case False
  with toggle_from_guard [OF assms, of r] obtain y where
    t1: "toggleGuardOrPragma r doc = (Edited, doc\<lparr>content := ''#pragma once\<newline>\<newline>'' @ y\<rparr>)"
    by blast
  have "protectionState (doc\<lparr>content := ''#pragma once\<newline>\<newline>'' @ y\<rparr>) = PragmaOnce"
    by (rule state_pragma_form [of _ y]) simp
  then show ?thesis by (simp add: t1)
qed

lemma toggle_once_from_none:
  assumes "isHeader doc" "\<not> hasPragmaOnce doc" "extractGuardMacro doc = None"
  shows "protectionState (snd (toggleGuardOrPragma r doc)) = Guard"
proof -
  let ?m = "computeMacro r doc"
  let ?d1 = "doc\<lparr>content := guardHeader ?m @ content doc @ guardFooter ?m\<rparr>"
  have t1: "toggleGuardOrPragma r doc = (Edited, ?d1)"
    using assms insertGuard_applied [OF assms, of r] by (simp add: toggleGuardOrPragma_def)
  note vm = validMacro_computeMacro [of r doc]
  have c1: "content ?d1 = guardHeader ?m @ content doc @ guardFooter ?m" by simp
  show ?thesis using state_guard_form [OF _ _ c1] vm by (simp add: t1)
qed

section \<open>From offsets back to lines\<close>

lemma terminated_append [simp]: "terminated (a @ b) = terminated a @ terminated b"
  by (simp add: terminated_def)

lemma terminated_Nil [simp]: "terminated [] = []"
  by (simp add: terminated_def)

lemma terminated_Cons [simp]: "terminated (l # ls) = l @ CHR 0x0A # terminated ls"
  by (simp add: terminated_def)

lemma terminated_splitLines: "terminated (splitLines t) = t @ [CHR 0x0A]"
proof (induction t)
  case Nil
  then show ?case by simp
next
  case (Cons c t)
  then show ?case by (cases "splitLines t") auto
qed

lemma lineStart_terminated: "lineStart ls k = length (terminated (take k ls))"
  by (simp add: lineStart_def terminated_def length_concat comp_def)

lemma splitLines_no_newline: "l \<in> set (splitLines t) \<Longrightarrow> CHR 0x0A \<notin> set l"
proof (induction t arbitrary: l)
  case Nil
  then show ?case by simp
next
  case (Cons c t)
  then show ?case by (cases "splitLines t") (auto split: if_splits)
qed

lemma terminated_ends:
  "R \<noteq> [] \<Longrightarrow> \<exists>r'. terminated R = r' @ [CHR 0x0A]"
proof (cases R rule: rev_cases)
  case Nil
  assume "R \<noteq> []"
  with Nil show ?thesis by simp
next
  case (snoc xs x)
  then have "terminated R = (terminated xs @ x) @ [CHR 0x0A]" by simp
  then show ?thesis by blast
qed

lemma splitLines_terminated:
  "\<forall>l \<in> set R. CHR 0x0A \<notin> set l \<Longrightarrow> terminated R = r @ [CHR 0x0A] \<Longrightarrow> splitLines r = R"
proof (induction R arbitrary: r)
  case Nil
  then show ?case by simp
next
  case (Cons l R)
  show ?case
  proof (cases "R = []")
    case True
    with Cons.prems have "r = l" by simp
    with Cons.prems True show ?thesis by (simp add: splitLines_single)
  next
    case False
    from terminated_ends [OF False] obtain r' where r': "terminated R = r' @ [CHR 0x0A]"
      by blast
    from Cons.prems(1) have "\<forall>l \<in> set R. CHR 0x0A \<notin> set l" by simp
    from Cons.IH [OF this r'] have "splitLines r' = R" .
    moreover from Cons.prems r' have "r = l @ CHR 0x0A # r'" by simp
    ultimately show ?thesis using Cons.prems by (simp add: splitLines_append splitLines_single)
  qed
qed

lemma cut_after:
  assumes "t @ [CHR 0x0A] = a @ h @ m @ le @ CHR 0x0A # z"
  shows "(take (length a) t @
          take (length a + length h + length m - (length a + length h))
            (drop (length a + length h) t) @
          drop (length a + length h + length m + length le) t) @ [CHR 0x0A] =
         a @ m @ CHR 0x0A # z"
proof (cases z rule: rev_cases)
  case Nil
  with assms have "t = a @ h @ m @ le" by simp
  with Nil show ?thesis by simp
next
  case (snoc z' c)
  with assms have "t @ [CHR 0x0A] = (a @ h @ m @ le @ CHR 0x0A # z') @ [c]" by simp
  then have "t = a @ h @ m @ le @ CHR 0x0A # z'" "c = CHR 0x0A" by simp_all
  with snoc show ?thesis by simp
qed

lemma cut_before:
  assumes "t @ [CHR 0x0A] = e0 @ le @ CHR 0x0A # m @ h @ z" "h \<noteq> []"
  shows "(take (length e0) t @
          take (length e0 + length le + 1 + length m - (length e0 + length le))
            (drop (length e0 + length le) t) @
          drop (if z = [] then length t else length e0 + length le + 1 + length m + length h) t)
           @ [CHR 0x0A] =
         e0 @ CHR 0x0A # m @ (if z = [] then [CHR 0x0A] else z)"
proof (cases z rule: rev_cases)
  case Nil
  from assms(2) obtain h' c where h: "h = h' @ [c]" by (cases h rule: rev_cases) auto
  with assms(1) Nil have "t @ [CHR 0x0A] = (e0 @ le @ CHR 0x0A # m @ h') @ [c]" by simp
  then have "t = e0 @ le @ CHR 0x0A # m @ h'" by simp
  with Nil show ?thesis by simp
next
  case (snoc z' c)
  with assms have "t @ [CHR 0x0A] = (e0 @ le @ CHR 0x0A # m @ h @ z') @ [c]" by simp
  then have "t = e0 @ le @ CHR 0x0A # m @ h @ z'" "c = CHR 0x0A" by simp_all
  with snoc show ?thesis by simp
qed

lemma lines_after:
  assumes "i < d" "d < e" "e < length (splitLines t)"
  shows "splitLines
     (take (lineStart (splitLines t) i) t @
      take (lineStart (splitLines t) e - lineStart (splitLines t) (d + 1))
        (drop (lineStart (splitLines t) (d + 1)) t) @
      drop (lineStart (splitLines t) e + length (splitLines t ! e)) t) =
     take i ((splitLines t)[e := []]) @ drop (d + 1) ((splitLines t)[e := []])"
proof -
  let ?ls = "splitLines t"
  define A H M Z where "A = take i ?ls" and "H = take (d + 1 - i) (drop i ?ls)"
    and "M = take (e - (d + 1)) (drop (d + 1) ?ls)" and "Z = drop (e + 1) ?ls"
  have dec: "?ls = A @ H @ M @ [?ls ! e] @ Z"
  proof -
    have "?ls = take i ?ls @ drop i ?ls" by simp
    also have "drop i ?ls = H @ drop (d + 1 - i) (drop i ?ls)"
      by (simp only: H_def append_take_drop_id)
    also have "drop (d + 1 - i) (drop i ?ls) = drop (d + 1) ?ls" using assms by simp
    also have "drop (d + 1) ?ls = M @ drop (e - (d + 1)) (drop (d + 1) ?ls)"
      by (simp only: M_def append_take_drop_id)
    also have "drop (e - (d + 1)) (drop (d + 1) ?ls) = drop e ?ls" using assms by simp
    also have "drop e ?ls = [?ls ! e] @ Z" using assms by (simp add: Z_def Cons_nth_drop_Suc)
    finally show ?thesis by (simp add: A_def)
  qed
  have len: "length A = i" "length H = d + 1 - i" "length M = e - (d + 1)"
    using assms by (simp_all add: A_def H_def M_def)
  have tk: "take i ?ls = A" "take (d + 1) ?ls = A @ H" "take e ?ls = A @ H @ M"
  proof -
    show "take i ?ls = A" by (simp add: A_def)
    have "take (d + 1) (A @ H @ M @ [?ls ! e] @ Z) = A @ H" using len assms by simp
    then show "take (d + 1) ?ls = A @ H" by (subst dec)
    have "take e (A @ H @ M @ [?ls ! e] @ Z) = A @ H @ M" using len assms by simp
    then show "take e ?ls = A @ H @ M" by (subst dec)
  qed
  have st: "lineStart ?ls i = length (terminated A)"
    "lineStart ?ls (d + 1) = length (terminated A) + length (terminated H)"
    "lineStart ?ls e = length (terminated A) + length (terminated H) + length (terminated M)"
    unfolding lineStart_terminated tk by simp_all
  have T: "t @ [CHR 0x0A] =
      terminated A @ terminated H @ terminated M @ (?ls ! e) @ CHR 0x0A # terminated Z"
    using terminated_splitLines [of t] by (subst (asm) dec) simp
  have upd: "?ls[e := []] = A @ H @ M @ [[]] @ Z"
    using upd_conv_take_nth_drop [OF assms(3), of "[]"] by (simp add: tk Z_def)
  have R: "take i (?ls[e := []]) @ drop (d + 1) (?ls[e := []]) = A @ M @ [[]] @ Z"
    unfolding upd using len assms by simp
  have free: "\<forall>l \<in> set (A @ M @ [[]] @ Z). CHR 0x0A \<notin> set l"
  proof
    fix l assume "l \<in> set (A @ M @ [[]] @ Z)"
    moreover have "set ?ls = set (A @ H @ M @ [?ls ! e] @ Z)" by (subst dec) simp
    ultimately have "l = [] \<or> l \<in> set ?ls" by auto
    then show "CHR 0x0A \<notin> set l" using splitLines_no_newline by auto
  qed
  have "terminated (A @ M @ [[]] @ Z) =
     (take (lineStart ?ls i) t @
      take (lineStart ?ls e - lineStart ?ls (d + 1)) (drop (lineStart ?ls (d + 1)) t) @
      drop (lineStart ?ls e + length (?ls ! e)) t) @ [CHR 0x0A]"
    unfolding st using cut_after [OF T] by simp
  from splitLines_terminated [OF free this] show ?thesis unfolding R .
qed

lemma terminated_empty_iff [simp]: "terminated ls = [] \<longleftrightarrow> ls = []"
  by (cases ls) simp_all

lemma take_piece: "length xs = n \<Longrightarrow> take n (xs @ ys) = xs"
  by simp

lemma drop_piece: "length xs = n \<Longrightarrow> drop n (xs @ ys) = ys"
  by simp

lemma lines_before:
  assumes "e < i" "i < d" "d < length (splitLines t)"
  shows "splitLines
     (take (lineStart (splitLines t) e) t @
      take (lineStart (splitLines t) i - (lineStart (splitLines t) e + length (splitLines t ! e)))
        (drop (lineStart (splitLines t) e + length (splitLines t ! e)) t) @
      drop (offsetAt (splitLines t) (d + 1, 0)) t) =
     take i ((splitLines t)[e := []]) @
       (if d + 1 < length (splitLines t) then drop (d + 1) ((splitLines t)[e := []]) else [[]])"
proof -
  let ?ls = "splitLines t"
  define E M H Z le where "E = take e ?ls" and "M = take (i - (e + 1)) (drop (e + 1) ?ls)"
    and "H = take (d + 1 - i) (drop i ?ls)" and "Z = drop (d + 1) ?ls" and "le = ?ls ! e"
  have el: "e < length ?ls" using assms by simp
  have dec: "?ls = E @ [le] @ M @ H @ Z"
  proof -
    have "?ls = take e ?ls @ drop e ?ls" by simp
    also have "drop e ?ls = [le] @ drop (e + 1) ?ls"
      using el by (simp add: le_def Cons_nth_drop_Suc)
    also have "drop (e + 1) ?ls = M @ drop (i - (e + 1)) (drop (e + 1) ?ls)"
      by (simp only: M_def append_take_drop_id)
    also have "drop (i - (e + 1)) (drop (e + 1) ?ls) = drop i ?ls" using assms by simp
    also have "drop i ?ls = H @ drop (d + 1 - i) (drop i ?ls)"
      by (simp only: H_def append_take_drop_id)
    also have "drop (d + 1 - i) (drop i ?ls) = Z" using assms by (simp add: Z_def)
    finally show ?thesis by (simp add: E_def)
  qed
  have len: "length E = e" "length M = i - (e + 1)" "length H = d + 1 - i"
    using assms by (simp_all add: E_def M_def H_def)
  have hne: "H \<noteq> []" using len(3) assms by auto
  have tk: "take e ?ls = E" "take i ?ls = E @ [le] @ M" "take (d + 1) ?ls = E @ [le] @ M @ H"
  proof -
    show "take e ?ls = E" by (simp add: E_def)
    have "length (E @ [le] @ M) = i" using len assms by simp
    from take_piece [OF this, of "H @ Z"]
    have "take i (E @ [le] @ M @ H @ Z) = E @ [le] @ M" by simp
    then show "take i ?ls = E @ [le] @ M" by (subst dec)
    have "length (E @ [le] @ M @ H) = d + 1" using len assms by simp
    from take_piece [OF this, of Z]
    have "take (d + 1) (E @ [le] @ M @ H @ Z) = E @ [le] @ M @ H" by simp
    then show "take (d + 1) ?ls = E @ [le] @ M @ H" by (subst dec)
  qed
  have st: "lineStart ?ls e = length (terminated E)"
    "lineStart ?ls i = length (terminated E) + length le + 1 + length (terminated M)"
    "lineStart ?ls (d + 1) =
       length (terminated E) + length le + 1 + length (terminated M) + length (terminated H)"
    unfolding lineStart_terminated tk by simp_all
  have zn: "Z = [] \<longleftrightarrow> \<not> d + 1 < length ?ls" by (auto simp: Z_def)
  have off: "offsetAt ?ls (d + 1, 0) =
      (if terminated Z = [] then length t
       else length (terminated E) + length le + 1 + length (terminated M) + length (terminated H))"
    unfolding offsetAt_after [OF assms(3)] st using zn by simp
  have T: "t @ [CHR 0x0A] =
      terminated E @ le @ CHR 0x0A # terminated M @ terminated H @ terminated Z"
    using terminated_splitLines [of t] by (subst (asm) dec) simp
  have upd: "?ls[e := []] = E @ [[]] @ M @ H @ Z"
  proof -
    have "drop (Suc e) ?ls = M @ H @ Z"
    proof -
      have "length (E @ [le]) = Suc e" using len by simp
      from drop_piece [OF this, of "M @ H @ Z"]
      have "drop (Suc e) (E @ [le] @ M @ H @ Z) = M @ H @ Z" by simp
      then show ?thesis by (subst dec)
    qed
    then show ?thesis
      using upd_conv_take_nth_drop [OF el, of "[]"] by (simp add: tk)
  qed
  have R: "take i (?ls[e := []]) @
       (if d + 1 < length ?ls then drop (d + 1) (?ls[e := []]) else [[]]) =
      E @ [[]] @ M @ (if Z = [] then [[]] else Z)"
  proof -
    have "length (E @ [[]] @ M) = i" using len assms by simp
    from take_piece [OF this, of "H @ Z"]
    have 1: "take i (E @ [[]] @ M @ H @ Z) = E @ [[]] @ M" by simp
    have "length (E @ [[]] @ M @ H) = d + 1" using len assms by simp
    from drop_piece [OF this, of Z]
    have 2: "drop (d + 1) (E @ [[]] @ M @ H @ Z) = Z" by simp
    show ?thesis unfolding upd 1 2 using zn by auto
  qed
  have free: "\<forall>l \<in> set (E @ [[]] @ M @ (if Z = [] then [[]] else Z)). CHR 0x0A \<notin> set l"
  proof
    fix l assume "l \<in> set (E @ [[]] @ M @ (if Z = [] then [[]] else Z))"
    moreover have "set ?ls = set (E @ [le] @ M @ H @ Z)" by (subst dec) simp
    ultimately have "l = [] \<or> l \<in> set ?ls" by (auto split: if_splits)
    then show "CHR 0x0A \<notin> set l" using splitLines_no_newline by auto
  qed
  have "terminated (E @ [[]] @ M @ (if Z = [] then [[]] else Z)) =
     (take (lineStart ?ls e) t @
      take (lineStart ?ls i - (lineStart ?ls e + length (?ls ! e)))
        (drop (lineStart ?ls e + length (?ls ! e)) t) @
      drop (offsetAt ?ls (d + 1, 0)) t) @ [CHR 0x0A]"
    unfolding st(1,2) off le_def [symmetric]
    using cut_before [OF T] hne by simp
  from splitLines_terminated [OF free this] show ?thesis unfolding R .
qed

section \<open>Toggling twice, and removing a guard\<close>

text \<open>
  Claim C9, as amended. On a header whose protection is a pragma or a guard, toggling
  twice gives a document with the same kind of protection. On a header with no
  protection the first toggle gives a guard and the second a pragma. One toggle turns a
  pragma into a guard, and a guard into a pragma unless the host rejects the edit and
  the document stays as it is. No toggle of a header gives a document with no
  protection.
\<close>

theorem toggle_twice_protection:
  assumes "isHeader doc"
  shows "(protectionState doc \<noteq> NoProtection \<longrightarrow>
            protectionState (snd (toggleGuardOrPragma r (snd (toggleGuardOrPragma r doc)))) =
              protectionState doc) \<and>
         (protectionState doc = NoProtection \<longrightarrow>
            protectionState (snd (toggleGuardOrPragma r doc)) = Guard \<and>
            protectionState (snd (toggleGuardOrPragma r (snd (toggleGuardOrPragma r doc)))) =
              PragmaOnce) \<and>
         (protectionState doc = PragmaOnce \<longrightarrow>
            protectionState (snd (toggleGuardOrPragma r doc)) = Guard) \<and>
         (protectionState doc = Guard \<longrightarrow>
            protectionState (snd (toggleGuardOrPragma r doc)) = PragmaOnce \<or>
            toggleGuardOrPragma r doc = (EditRejected, doc)) \<and>
         protectionState (snd (toggleGuardOrPragma r doc)) \<noteq> NoProtection"
proof (cases "hasPragmaOnce doc")
  case True
  then have "protectionState doc = PragmaOnce" by (simp add: protectionState_def)
  with toggle_twice_from_pragma [OF assms True, of r] show ?thesis by simp
next
  case np: False
  show ?thesis
  proof (cases "extractGuardMacro doc")
    case None
    with np have "protectionState doc = NoProtection" by (simp add: protectionState_def)
    with toggle_twice_from_none [OF assms np None, of r]
      toggle_once_from_none [OF assms np None, of r] show ?thesis by simp
  next
    case (Some g)
    with np have s: "protectionState doc = Guard" by (simp add: protectionState_def)
    from toggle_once_from_guard [OF assms np Some, of r]
    have "protectionState (snd (toggleGuardOrPragma r doc)) \<noteq> NoProtection"
      using s by auto
    with s toggle_twice_from_guard [OF assms np Some, of r]
      toggle_once_from_guard [OF assms np Some, of r] show ?thesis by simp
  qed
qed

theorem toggle_twice_protection_witness:
  "isHeader pragmaFirst \<and> protectionState pragmaFirst = PragmaOnce \<and>
   protectionState (snd (toggleGuardOrPragma insideFolder pragmaFirst)) = Guard \<and>
   protectionState
     (snd (toggleGuardOrPragma insideFolder (snd (toggleGuardOrPragma insideFolder pragmaFirst)))) =
     PragmaOnce \<and>
   isHeader bareEndif \<and> protectionState bareEndif = Guard \<and>
   protectionState
     (snd (toggleGuardOrPragma insideFolder (snd (toggleGuardOrPragma insideFolder bareEndif)))) =
     Guard \<and>
   isHeader noEndif \<and> protectionState noEndif = NoProtection \<and>
   protectionState (snd (toggleGuardOrPragma insideFolder noEndif)) = Guard \<and>
   protectionState
     (snd (toggleGuardOrPragma insideFolder (snd (toggleGuardOrPragma insideFolder noEndif)))) =
     PragmaOnce"
proof -
  have h: "isHeader pragmaFirst" "isHeader bareEndif" "isHeader noEndif"
    by (simp_all add: pragmaFirst_def bareEndif_def noEndif_def header_def path_defs)
  have p: "protectionState pragmaFirst = PragmaOnce"
    by (simp add: pragmaFirst_def regex_defs doc_defs scan_defs)
  have g: "protectionState bareEndif = Guard"
    by (simp add: bareEndif_def regex_defs doc_defs scan_defs)
  have n: "protectionState noEndif = NoProtection"
    by (simp add: noEndif_def regex_defs doc_defs scan_defs)
  from toggle_twice_protection [OF h(1), of insideFolder] p
  have 1: "protectionState (snd (toggleGuardOrPragma insideFolder pragmaFirst)) = Guard"
    "protectionState
     (snd (toggleGuardOrPragma insideFolder (snd (toggleGuardOrPragma insideFolder pragmaFirst)))) =
     PragmaOnce" by simp_all
  from toggle_twice_protection [OF h(2), of insideFolder] g
  have 2: "protectionState
     (snd (toggleGuardOrPragma insideFolder (snd (toggleGuardOrPragma insideFolder bareEndif)))) =
     Guard" by simp
  from toggle_twice_protection [OF h(3), of insideFolder] n
  have 3: "protectionState (snd (toggleGuardOrPragma insideFolder noEndif)) = Guard"
    "protectionState
     (snd (toggleGuardOrPragma insideFolder (snd (toggleGuardOrPragma insideFolder noEndif)))) =
     PragmaOnce" by simp_all
  from h p g n 1 2 3 show ?thesis by blast
qed

lemma toggle_emptyHeader:
  "toggleGuardOrPragma insideFolder emptyHeader =
     (Edited, header ''#ifndef FOO_H\<newline>#define FOO_H\<newline>\<newline>\<newline>#endif // FOO_H\<newline>'')"
  by (simp add: emptyHeader_def regex_defs doc_defs scan_defs path_defs edit_defs
      char_of_numeral_eq)

lemma toggle_emptyHeader_again:
  "toggleGuardOrPragma insideFolder
     (header ''#ifndef FOO_H\<newline>#define FOO_H\<newline>\<newline>\<newline>#endif // FOO_H\<newline>'') =
     (Edited, header ''#pragma once\<newline>\<newline>\<newline>\<newline>\<newline>'')"
  by (simp add: regex_defs doc_defs scan_defs path_defs edit_defs char_of_numeral_eq)

text \<open>
  Claim C9 as stated fails on the empty header: it has no protection, and after two
  toggles it holds \<open>#pragma once\<close>.
\<close>

theorem toggle_twice_from_none_counterexample:
  "isHeader emptyHeader \<and> protectionState emptyHeader = NoProtection \<and>
   protectionState
     (snd (toggleGuardOrPragma insideFolder (snd (toggleGuardOrPragma insideFolder emptyHeader)))) =
     PragmaOnce"
proof -
  have h: "isHeader emptyHeader" by (simp add: emptyHeader_def header_def path_defs)
  have n: "protectionState emptyHeader = NoProtection"
    by (simp add: emptyHeader_def regex_defs doc_defs scan_defs)
  have p: "protectionState (header ''#pragma once\<newline>\<newline>\<newline>\<newline>\<newline>'') = PragmaOnce"
    by (simp add: regex_defs doc_defs scan_defs)
  from h n p show ?thesis by (simp add: toggle_emptyHeader toggle_emptyHeader_again)
qed

lemma pragma_form_lines:
  "splitLines (''#pragma once\<newline>\<newline>'' @ y) = ''#pragma once'' # [] # splitLines y"
proof -
  have "''#pragma once\<newline>\<newline>'' @ y = ''#pragma once'' @ CHR 0x0A # [] @ CHR 0x0A # y"
    by simp
  then have "splitLines (''#pragma once\<newline>\<newline>'' @ y) =
      splitLines ''#pragma once'' @ splitLines [] @ splitLines y"
    by (simp only: splitLines_append)
  then show ?thesis by simp
qed

text \<open>
  Claim C7, as amended. On a header without a pragma whose guard has its \<open>#endif\<close>
  outside the lines from the \<open>#ifndef\<close> to the \<open>#define\<close>, \<open>usePragmaOnce\<close> applies one edit
  whose result has the lines \<open>#pragma once\<close> and a blank line, then the lines of the
  document with the text of the \<open>#endif\<close> line deleted (the line stays, empty) and the
  lines from the \<open>#ifndef\<close> to the \<open>#define\<close> removed; when the \<open>#define\<close> is the last line,
  the deletion runs to the end of the text and one empty line is left in place of the
  header. \<open>toggleGuardOrPragma\<close> does the same on such a document.
\<close>

theorem usePragmaOnce_removes_guard:
  assumes "isHeader doc" "\<not> hasPragmaOnce doc" "extractGuardMacro doc = Some g"
    "\<not> (ifndefLine g < endifLine g \<and> endifLine g < defineLine g)"
  shows "fst (usePragmaOnce doc) = Edited \<and>
     docLines (snd (usePragmaOnce doc)) =
       ''#pragma once'' # [] #
       take (ifndefLine g) ((docLines doc)[endifLine g := []]) @
       (if defineLine g + 1 < lineCount doc
        then drop (defineLine g + 1) ((docLines doc)[endifLine g := []]) else [[]]) \<and>
     toggleGuardOrPragma r doc = usePragmaOnce doc"
proof -
  let ?t = "content doc"
  let ?ls = "splitLines ?t"
  note gl = guard_lines [OF assms(3)]
  have n: "lineCount doc = length ?ls" by (simp add: lineCount_def docLines_def)
  have u: "usePragmaOnce doc =
      edit doc (Insert (0, 0) ''#pragma once\<newline>\<newline>'' # guardDeletions doc g)"
    using assms by (simp add: usePragmaOnce_def)
  have t: "toggleGuardOrPragma r doc = usePragmaOnce doc"
    using assms by (simp add: toggleGuardOrPragma_def u)
  from assms(4) gl(4,5) consider (after) "defineLine g < endifLine g"
    | (before) "endifLine g < ifndefLine g" by arith
  then have "\<exists>y. applyEdits (guardDeletions doc g) ?t = Some y \<and>
      splitLines y = take (ifndefLine g) (?ls[endifLine g := []]) @
       (if defineLine g + 1 < length ?ls
        then drop (defineLine g + 1) (?ls[endifLine g := []]) else [[]])"
  proof cases
    case after
    have e: "endifLine g < length ?ls" using gl(3) n by simp
    then have d1: "defineLine g + 1 < length ?ls" using after by simp
    from guard_edit_after [OF assms(3) after] lines_after [OF gl(1) after e] d1
    show ?thesis by simp
  next
    case before
    have d: "defineLine g < length ?ls" using gl(2) n by simp
    from guard_edit_before [OF assms(3) before] lines_before [OF before gl(1) d]
    show ?thesis by simp
  qed
  then obtain y where y: "applyEdits (guardDeletions doc g) ?t = Some y"
    "splitLines y = take (ifndefLine g) (?ls[endifLine g := []]) @
       (if defineLine g + 1 < length ?ls
        then drop (defineLine g + 1) (?ls[endifLine g := []]) else [[]])" by blast
  have r: "usePragmaOnce doc = (Edited, doc\<lparr>content := ''#pragma once\<newline>\<newline>'' @ y\<rparr>)"
    using y(1) by (simp add: u edit_def applyEdits_insert_top)
  have "docLines (snd (usePragmaOnce doc)) = ''#pragma once'' # [] # splitLines y"
    unfolding r using pragma_form_lines [of y] by (simp add: docLines_def)
  with y(2) r t show ?thesis by (simp add: n docLines_def)
qed

theorem usePragmaOnce_removes_guard_witness:
  "isHeader guardThenCode \<and> \<not> hasPragmaOnce guardThenCode \<and>
   extractGuardMacro guardThenCode =
     Some \<lparr>macro = ''FOO_H'', ifndefLine = 0, defineLine = 1, endifLine = 3\<rparr> \<and>
   docLines (snd (usePragmaOnce guardThenCode)) =
     [''#pragma once'', [], ''int x;'', [], ''int y;''] \<and>
   isHeader endifFirst \<and> \<not> hasPragmaOnce endifFirst \<and>
   extractGuardMacro endifFirst =
     Some \<lparr>macro = ''FOO_H'', ifndefLine = 1, defineLine = 2, endifLine = 0\<rparr> \<and>
   docLines (snd (usePragmaOnce endifFirst)) = [''#pragma once'', [], [], []] \<and>
   toggleGuardOrPragma insideFolder endifFirst = usePragmaOnce endifFirst"
proof -
  let ?g = "\<lparr>macro = ''FOO_H'', ifndefLine = 0, defineLine = 1, endifLine = 3\<rparr>"
  let ?f = "\<lparr>macro = ''FOO_H'', ifndefLine = 1, defineLine = 2, endifLine = 0\<rparr>"
  have h: "isHeader guardThenCode" "isHeader endifFirst"
    by (simp_all add: guardThenCode_def endifFirst_def header_def path_defs)
  have p: "\<not> hasPragmaOnce guardThenCode" "\<not> hasPragmaOnce endifFirst"
    by (simp_all add: guardThenCode_def endifFirst_def regex_defs doc_defs scan_defs)
  have x: "extractGuardMacro guardThenCode = Some ?g"
    by (simp add: guardThenCode_def regex_defs doc_defs scan_defs)
  have x2: "extractGuardMacro endifFirst = Some ?f"
    by (simp add: endifFirst_def regex_defs doc_defs scan_defs)
  have o: "\<not> (ifndefLine ?g < endifLine ?g \<and> endifLine ?g < defineLine ?g)"
    "\<not> (ifndefLine ?f < endifLine ?f \<and> endifLine ?f < defineLine ?f)" by simp_all
  have l: "docLines guardThenCode =
      [''#ifndef FOO_H'', ''#define FOO_H'', ''int x;'', ''#endif // FOO_H'', ''int y;'']"
    "docLines endifFirst = [''#endif'', ''#ifndef FOO_H'', ''#define FOO_H'']"
    by (simp_all add: guardThenCode_def endifFirst_def doc_defs)
  from usePragmaOnce_removes_guard [OF h(1) p(1) x o(1), of insideFolder]
  have 1: "docLines (snd (usePragmaOnce guardThenCode)) =
     [''#pragma once'', [], ''int x;'', [], ''int y;'']"
    by (simp add: l lineCount_def)
  from usePragmaOnce_removes_guard [OF h(2) p(2) x2 o(2), of insideFolder]
  have 2: "docLines (snd (usePragmaOnce endifFirst)) = [''#pragma once'', [], [], []]"
    "toggleGuardOrPragma insideFolder endifFirst = usePragmaOnce endifFirst"
    by (simp_all add: l lineCount_def)
  from h p x x2 1 2 show ?thesis by blast
qed

text \<open>
  Claim C7 as stated fails on a guard followed by code: where the claim deletes the
  \<open>#endif\<close> line, the edit deletes its text only, and an empty line stays between the
  lines around it. It also fails on a guard whose \<open>#endif\<close> lies between the \<open>#ifndef\<close> and
  the \<open>#define\<close>: the edit is rejected as a whole and nothing is inserted or deleted.
\<close>

theorem usePragmaOnce_blank_line_counterexample:
  "isHeader guardThenCode \<and> \<not> hasPragmaOnce guardThenCode \<and>
   extractGuardMacro guardThenCode =
     Some \<lparr>macro = ''FOO_H'', ifndefLine = 0, defineLine = 1, endifLine = 3\<rparr> \<and>
   docLines (snd (usePragmaOnce guardThenCode)) =
     [''#pragma once'', [], ''int x;'', [], ''int y;''] \<and>
   specPragmaLines (docLines guardThenCode)
       \<lparr>macro = ''FOO_H'', ifndefLine = 0, defineLine = 1, endifLine = 3\<rparr> =
     [''#pragma once'', [], ''int x;'', ''int y;''] \<and>
   isHeader endifInside \<and> \<not> hasPragmaOnce endifInside \<and>
   extractGuardMacro endifInside =
     Some \<lparr>macro = ''FOO_H'', ifndefLine = 0, defineLine = 2, endifLine = 1\<rparr> \<and>
   docLines (snd (usePragmaOnce endifInside)) =
     [''#ifndef FOO_H'', ''#endif'', ''#define FOO_H''] \<and>
   specPragmaLines (docLines endifInside)
       \<lparr>macro = ''FOO_H'', ifndefLine = 0, defineLine = 2, endifLine = 1\<rparr> =
     [''#pragma once'', []]"
  by (simp add: guardThenCode_def endifInside_def specPragmaLines_def regex_defs doc_defs
      scan_defs path_defs edit_defs)

text \<open>
  When the \<open>#endif\<close> that the extractor found lies between the \<open>#ifndef\<close> and the
  \<open>#define\<close>, the two deletions overlap, the host rejects the edit, and the document
  stays as it was, for \<open>usePragmaOnce\<close> and for \<open>toggleGuardOrPragma\<close>.
\<close>

theorem guard_removal_rejected:
  assumes "isHeader doc" "\<not> hasPragmaOnce doc" "extractGuardMacro doc = Some g"
    "ifndefLine g < endifLine g" "endifLine g < defineLine g"
  shows "usePragmaOnce doc = (EditRejected, doc) \<and>
     toggleGuardOrPragma r doc = (EditRejected, doc)"
proof -
  from toggle_from_guard [OF assms(1,2,3), of r] assms(4,5)
  have t: "toggleGuardOrPragma r doc = (EditRejected, doc)" by blast
  have "toggleGuardOrPragma r doc = usePragmaOnce doc"
    using assms(1,2,3) by (simp add: toggleGuardOrPragma_def usePragmaOnce_def)
  with t show ?thesis by simp
qed

theorem guard_removal_rejected_witness:
  "isHeader endifInside \<and> \<not> hasPragmaOnce endifInside \<and>
   extractGuardMacro endifInside =
     Some \<lparr>macro = ''FOO_H'', ifndefLine = 0, defineLine = 2, endifLine = 1\<rparr> \<and>
   usePragmaOnce endifInside = (EditRejected, endifInside) \<and>
   toggleGuardOrPragma insideFolder endifInside = (EditRejected, endifInside)"
proof -
  let ?g = "\<lparr>macro = ''FOO_H'', ifndefLine = 0, defineLine = 2, endifLine = 1\<rparr>"
  have h: "isHeader endifInside" by (simp add: endifInside_def header_def path_defs)
  have p: "\<not> hasPragmaOnce endifInside"
    by (simp add: endifInside_def regex_defs doc_defs scan_defs)
  have x: "extractGuardMacro endifInside = Some ?g"
    by (simp add: endifInside_def regex_defs doc_defs scan_defs)
  from guard_removal_rejected [OF h p x, of insideFolder]
  have "usePragmaOnce endifInside = (EditRejected, endifInside) \<and>
     toggleGuardOrPragma insideFolder endifInside = (EditRejected, endifInside)" by simp
  with h p x show ?thesis by blast
qed

end
